theory Spec2Isabelle
  imports Main "HOL-Library.Word" "HOL-Library.Sublist"
begin

unbundle bit_operations_syntax

section \<open>The wire format writer (src/src/writer.js)\<close>

text \<open>
  The writer is modelled on the plain \<^verbatim>\<open>Writer\<close> class with \<^verbatim>\<open>Uint8Array\<close> chunks
  (\<^verbatim>\<open>ArrayImpl\<close> when typed arrays exist). A chunk is a list of bytes; storing a JavaScript
  number in a \<^verbatim>\<open>Uint8Array\<close> keeps its low eight bits, which is \<open>ucast\<close> from the
  32-bit value of the bit operation that produced it. A store beyond the end of a typed
  array is ignored, which is what \<open>xs[i := v]\<close> does in HOL. Numbers that take part in
  \<^verbatim>\<open>>>>\<close>, \<^verbatim>\<open>&\<close>, \<^verbatim>\<open>|\<close> are 32-bit words; positions and lengths are
  natural numbers. Every exception of the source is a value \<open>Inl e\<close>; \<open>Unmodelled\<close> marks
  the few calls whose JavaScript behaviour the embedding does not cover.

  The module keeps the variable \<^verbatim>\<open>emptyArray\<close> beside the class. It is null when the
  module is loaded and is assigned by \<^verbatim>\<open>Writer.setup\<close>, which runs at the first allocation
  of the process; every writer of the process sees the same variable. The state that the
  methods take and return holds it next to the fields of the writer object: \<open>None\<close> is
  null.
\<close>

type_synonym byte = "8 word"

datatype error = TypeError | RangeError | Error | Unmodelled

text \<open>The snapshot taken by \<^verbatim>\<open>State(writer)\<close>.\<close>

record state =
  s_bufs :: "byte list list"
  s_buf :: "byte list option"
  s_pos :: nat
  s_len :: nat

record writer =
  buf :: "byte list option"
  pos :: nat
  len :: nat
  bufs :: "byte list list"
  stack :: "state list"
  emptyArray :: "byte list option"

text \<open>
  \<^verbatim>\<open>new Writer()\<close>. The constructor sets the five fields of the object and leaves the
  variable of the module as it is: \<open>Writer_in e\<close> is the writer made while \<^verbatim>\<open>emptyArray\<close>
  is \<open>e\<close>, and \<open>Writer\<close> the writer made before anything was allocated.
\<close>

definition Writer_in :: "byte list option \<Rightarrow> writer" where
  "Writer_in e = \<lparr>buf = None, pos = 0, len = 0, bufs = [], stack = [], emptyArray = e\<rparr>"

definition Writer :: writer where
  "Writer = Writer_in None"

definition BUFFER_SIZE :: nat where
  "BUFFER_SIZE = 256"

text \<open>\<^verbatim>\<open>alloc_array(size)\<close>: a fresh \<^verbatim>\<open>Uint8Array\<close> is filled with zeros.\<close>

definition alloc_array :: "nat \<Rightarrow> byte list" where
  "alloc_array n = replicate n 0"

text \<open>
  \<^verbatim>\<open>Writer.setup()\<close> stores \<^verbatim>\<open>alloc_array\<close> in \<^verbatim>\<open>Writer.alloc\<close> and an array of length
  zero in \<^verbatim>\<open>emptyArray\<close>. It also installs \<^verbatim>\<open>_slice\<close> and \<^verbatim>\<open>_set\<close>, which the methods
  call on a chunk only, and a chunk comes from \<^verbatim>\<open>Writer.alloc\<close>.
\<close>

definition Writer_setup :: "writer \<Rightarrow> writer" where
  "Writer_setup w = w\<lparr>emptyArray := Some (alloc_array 0)\<rparr>"

text \<open>
  \<^verbatim>\<open>Writer.alloc(size)\<close>. Until \<^verbatim>\<open>setup\<close> has run, \<^verbatim>\<open>Writer.alloc\<close> is
  \<^verbatim>\<open>alloc_array_setup\<close>, which runs \<^verbatim>\<open>setup\<close> and then allocates; afterwards it is
  \<^verbatim>\<open>alloc_array\<close>. Both variables are assigned by \<^verbatim>\<open>setup\<close> alone, so \<^verbatim>\<open>emptyArray\<close>
  is null exactly while \<^verbatim>\<open>Writer.alloc\<close> is still \<^verbatim>\<open>alloc_array_setup\<close>.
\<close>

definition alloc :: "nat \<Rightarrow> writer \<Rightarrow> byte list \<times> writer" where
  "alloc n w =
     (case emptyArray w of
        None \<Rightarrow> (alloc_array n, Writer_setup w)
      | Some e \<Rightarrow> (alloc_array n, w))"

text \<open>
  \<^verbatim>\<open>expand(writeLength)\<close>: seals \<^verbatim>\<open>buf.slice(0, pos)\<close> when \<^verbatim>\<open>pos\<close> is not zero
  (a \<^verbatim>\<open>TypeError\<close> if \<^verbatim>\<open>buf\<close> is null there) and allocates the next chunk.
\<close>

definition expand :: "nat \<Rightarrow> writer \<Rightarrow> error + writer" where
  "expand writeLength w =
     (let n = max writeLength BUFFER_SIZE in
      if pos w \<noteq> 0 then
        (case buf w of
           None \<Rightarrow> Inl TypeError
         | Some b \<Rightarrow>
             (let (a, w1) = alloc n (w\<lparr>bufs := bufs w @ [take (pos w) b]\<rparr>)
              in Inr (w1\<lparr>buf := Some a, len := n, pos := 0\<rparr>)))
      else
        (let (a, w1) = alloc n w
         in Inr (w1\<lparr>buf := Some a, len := n, pos := 0\<rparr>)))"

text \<open>The statement \<^verbatim>\<open>this.buf[this.pos++] = v\<close>.\<close>

definition put :: "byte \<Rightarrow> writer \<Rightarrow> error + writer" where
  "put v w =
     (case buf w of
        None \<Rightarrow> Inl TypeError
      | Some b \<Rightarrow> Inr (w\<lparr>buf := Some (b[pos w := v]), pos := Suc (pos w)\<rparr>))"

text \<open>The statement \<^verbatim>\<open>if (this.pos + n > this.len) this.expand(n)\<close>.\<close>

definition ensure :: "nat \<Rightarrow> writer \<Rightarrow> error + writer" where
  "ensure n w = (if pos w + n > len w then expand n w else Inr w)"

text \<open>The statement \<^verbatim>\<open>if (this.pos >= this.len) this.expand(1)\<close>.\<close>

definition ensure1 :: "writer \<Rightarrow> error + writer" where
  "ensure1 w = (if pos w \<ge> len w then expand 1 w else Inr w)"

text \<open>Writing several bytes one after the other, each by \<open>put\<close>.\<close>

fun puts :: "byte list \<Rightarrow> writer \<Rightarrow> error + writer" where
  "puts [] w = Inr w"
| "puts (v # vs) w = (case put v w of Inl e \<Rightarrow> Inl e | Inr w' \<Rightarrow> puts vs w')"

text \<open>\<^verbatim>\<open>tag(id, wireType)\<close>\<close>

definition tag_byte :: "int \<Rightarrow> int \<Rightarrow> byte" where
  "tag_byte i wireType =
     ucast (((push_bit 3 (word_of_int i :: 32 word)) OR ((word_of_int wireType :: 32 word) AND 7)) AND 255)"

definition tag :: "int \<Rightarrow> int \<Rightarrow> writer \<Rightarrow> error + writer" where
  "tag i wireType w =
     (case ensure 1 w of Inl e \<Rightarrow> Inl e | Inr w1 \<Rightarrow> put (tag_byte i wireType) w1)"

text \<open>
  \<^verbatim>\<open>uint32(value)\<close>. The argument is an integral JavaScript number; \<^verbatim>\<open>value >>>= 0\<close>
  is \<open>word_of_int\<close>. The two \<^verbatim>\<open>while (value > 127)\<close> loops return the remaining
  value and the writer; the fast route stores without testing the capacity.
\<close>

function uint32_fast :: "32 word \<Rightarrow> writer \<Rightarrow> error + (32 word \<times> writer)" where
  "uint32_fast v w =
     (if 127 < v then
        (case put (ucast ((v AND 127) OR 128)) w of
           Inl e \<Rightarrow> Inl e
         | Inr w' \<Rightarrow> uint32_fast (drop_bit 7 v) w')
      else Inr (v, w))"
  by pat_completeness auto
termination
proof (relation "measure (\<lambda>(v, w). unat v)")
  show "wf (measure (\<lambda>(v, w). unat v))" by simp
next
  fix v :: "32 word" and w x2 :: writer
  assume "127 < v"
  then have "unat v \<noteq> 0" by (auto simp: unat_eq_0)
  then have "unat v div 128 < unat v" by simp
  then show "((drop_bit 7 v, x2), (v, w)) \<in> measure (\<lambda>(v, w). unat v)"
    by (simp add: unat_drop_bit_eq drop_bit_eq_div unat_div)
qed

function uint32_slow :: "32 word \<Rightarrow> writer \<Rightarrow> error + (32 word \<times> writer)" where
  "uint32_slow v w =
     (if 127 < v then
        (case ensure1 w of
           Inl e \<Rightarrow> Inl e
         | Inr w1 \<Rightarrow>
             (case put (ucast ((v AND 127) OR 128)) w1 of
                Inl e \<Rightarrow> Inl e
              | Inr w' \<Rightarrow> uint32_slow (drop_bit 7 v) w'))
      else Inr (v, w))"
  by pat_completeness auto
termination
proof (relation "measure (\<lambda>(v, w). unat v)")
  show "wf (measure (\<lambda>(v, w). unat v))" by simp
next
  fix v :: "32 word" and w x2 x3 :: writer
  assume "127 < v"
  then have "unat v \<noteq> 0" by (auto simp: unat_eq_0)
  then have "unat v div 128 < unat v" by simp
  then show "((drop_bit 7 v, x3), (v, w)) \<in> measure (\<lambda>(v, w). unat v)"
    by (simp add: unat_drop_bit_eq drop_bit_eq_div unat_div)
qed

definition uint32w :: "32 word \<Rightarrow> writer \<Rightarrow> error + writer" where
  "uint32w v w =
     (if pos w + 4 < len w then
        (case uint32_fast v w of
           Inl e \<Rightarrow> Inl e
         | Inr (v', w') \<Rightarrow> put (ucast v') w')
      else
        (case uint32_slow v w of
           Inl e \<Rightarrow> Inl e
         | Inr (v', w1) \<Rightarrow>
             (case ensure1 w1 of
                Inl e \<Rightarrow> Inl e
              | Inr w' \<Rightarrow> put (ucast v') w')))"

definition uint32 :: "int \<Rightarrow> writer \<Rightarrow> error + writer" where
  "uint32 v w = uint32w (word_of_int v) w"

text \<open>\<^verbatim>\<open>int32\<close> is the same function object as \<^verbatim>\<open>uint32\<close>.\<close>

definition int32 :: "int \<Rightarrow> writer \<Rightarrow> error + writer" where
  "int32 = uint32"

text \<open>\<^verbatim>\<open>value << 1 ^ value >> 31\<close>, on the 32-bit integer of the argument.\<close>

definition zigzag32 :: "int \<Rightarrow> 32 word" where
  "zigzag32 v = (push_bit 1 (word_of_int v :: 32 word)) XOR (signed_drop_bit 31 (word_of_int v :: 32 word))"

definition sint32 :: "int \<Rightarrow> writer \<Rightarrow> error + writer" where
  "sint32 v w = uint32w (zigzag32 v) w"

text \<open>
  \<^verbatim>\<open>_writeLongVarint(lo, hi)\<close>, on the two unsigned 32-bit halves.
\<close>

function long_fast :: "32 word \<Rightarrow> 32 word \<Rightarrow> writer \<Rightarrow> error + (32 word \<times> writer)" where
  "long_fast lo hi w =
     (if 0 < hi \<or> 127 < lo then
        (case put (ucast ((lo AND 127) OR 128)) w of
           Inl e \<Rightarrow> Inl e
         | Inr w' \<Rightarrow> long_fast ((drop_bit 7 lo) OR (push_bit 25 hi)) (drop_bit 7 hi) w')
      else Inr (lo, w))"
  by pat_completeness auto
termination
proof (relation "measures [\<lambda>(lo, hi, w). unat hi, \<lambda>(lo, hi, w). unat lo]")
  show "wf (measures [\<lambda>(lo, hi, w). unat hi, \<lambda>(lo, hi, w). unat lo])" by simp
next
  fix lo hi :: "32 word" and w x2 :: writer
  assume c: "0 < hi \<or> 127 < lo"
  show "((drop_bit 7 lo OR push_bit 25 hi, drop_bit 7 hi, x2), (lo, hi, w))
          \<in> measures [\<lambda>(lo, hi, w). unat hi, \<lambda>(lo, hi, w). unat lo]"
  proof (cases "hi = 0")
    case True
    with c have "127 < lo" by simp
    then have "unat lo \<noteq> 0" by (auto simp: unat_eq_0)
    then have "unat lo div 128 < unat lo" by simp
    with True show ?thesis
      by (simp add: unat_drop_bit_eq drop_bit_eq_div unat_div)
  next
    case False
    then have "unat hi \<noteq> 0" by (simp add: unat_eq_0)
    then have "unat hi div 128 < unat hi" by simp
    then show ?thesis
      by (simp add: unat_drop_bit_eq drop_bit_eq_div unat_div)
  qed
qed

function long_slow :: "32 word \<Rightarrow> 32 word \<Rightarrow> writer \<Rightarrow> error + (32 word \<times> writer)" where
  "long_slow lo hi w =
     (if 0 < hi \<or> 127 < lo then
        (case ensure1 w of
           Inl e \<Rightarrow> Inl e
         | Inr w1 \<Rightarrow>
             (case put (ucast ((lo AND 127) OR 128)) w1 of
                Inl e \<Rightarrow> Inl e
              | Inr w' \<Rightarrow> long_slow ((drop_bit 7 lo) OR (push_bit 25 hi)) (drop_bit 7 hi) w'))
      else Inr (lo, w))"
  by pat_completeness auto
termination
proof (relation "measures [\<lambda>(lo, hi, w). unat hi, \<lambda>(lo, hi, w). unat lo]")
  show "wf (measures [\<lambda>(lo, hi, w). unat hi, \<lambda>(lo, hi, w). unat lo])" by simp
next
  fix lo hi :: "32 word" and w x2 x3 :: writer
  assume c: "0 < hi \<or> 127 < lo"
  show "((drop_bit 7 lo OR push_bit 25 hi, drop_bit 7 hi, x3), (lo, hi, w))
          \<in> measures [\<lambda>(lo, hi, w). unat hi, \<lambda>(lo, hi, w). unat lo]"
  proof (cases "hi = 0")
    case True
    with c have "127 < lo" by simp
    then have "unat lo \<noteq> 0" by (auto simp: unat_eq_0)
    then have "unat lo div 128 < unat lo" by simp
    with True show ?thesis
      by (simp add: unat_drop_bit_eq drop_bit_eq_div unat_div)
  next
    case False
    then have "unat hi \<noteq> 0" by (simp add: unat_eq_0)
    then have "unat hi div 128 < unat hi" by simp
    then show ?thesis
      by (simp add: unat_drop_bit_eq drop_bit_eq_div unat_div)
  qed
qed

definition writeLongVarint :: "32 word \<Rightarrow> 32 word \<Rightarrow> writer \<Rightarrow> error + writer" where
  "writeLongVarint lo hi w =
     (if pos w + 9 < len w then
        (case long_fast lo hi w of
           Inl e \<Rightarrow> Inl e
         | Inr (lo', w') \<Rightarrow> put (ucast lo') w')
      else
        (case long_slow lo hi w of
           Inl e \<Rightarrow> Inl e
         | Inr (lo', w1) \<Rightarrow>
             (case ensure1 w1 of
                Inl e \<Rightarrow> Inl e
              | Inr w' \<Rightarrow> put (ucast lo') w')))"

text \<open>
  Modelled from the spec: the LongBits helper (\<^verbatim>\<open>./longbits\<close>) is not part of the source.
  The spec describes it as the utility that splits a 64-bit value into two 32-bit halves
  \<open>(lo, hi)\<close>, from an integer or from a \<^verbatim>\<open>{low, high}\<close> pair, and that zig-zags:
  \<^verbatim>\<open>(n << 1) ^ (n >> 63)\<close> on the 64-bit value.
\<close>

datatype long_value = Number int | Long int int

definition LongBits_zero :: "32 word \<times> 32 word" where
  "LongBits_zero = (0, 0)"

definition LongBits_fromNumber :: "int \<Rightarrow> 32 word \<times> 32 word" where
  "LongBits_fromNumber v = (word_of_int v, word_of_int (v div 2 ^ 32))"

fun LongBits_from :: "long_value \<Rightarrow> 32 word \<times> 32 word" where
  "LongBits_from (Number v) = LongBits_fromNumber v"
| "LongBits_from (Long l h) = (word_of_int l, word_of_int h)"

definition zzEncode :: "32 word \<times> 32 word \<Rightarrow> 32 word \<times> 32 word" where
  "zzEncode bits =
     (let n = (push_bit 32 (ucast (snd bits) :: 64 word)) OR (ucast (fst bits) :: 64 word);
          z = (push_bit 1 n) XOR (signed_drop_bit 63 n)
      in (ucast z, ucast (drop_bit 32 z)))"

text \<open>\<^verbatim>\<open>uint64(value)\<close>; \<^verbatim>\<open>int64\<close> is the same function object.\<close>

fun uint64 :: "long_value \<Rightarrow> writer \<Rightarrow> error + writer" where
  "uint64 (Number v) w =
     (let bits = (if v \<noteq> 0 then LongBits_fromNumber v else LongBits_zero)
      in writeLongVarint (fst bits) (snd bits) w)"
| "uint64 (Long l h) w = writeLongVarint (word_of_int l) (word_of_int h) w"

definition int64 :: "long_value \<Rightarrow> writer \<Rightarrow> error + writer" where
  "int64 = uint64"

definition sint64 :: "long_value \<Rightarrow> writer \<Rightarrow> error + writer" where
  "sint64 v w = (let bits = zzEncode (LongBits_from v) in writeLongVarint (fst bits) (snd bits) w)"

text \<open>\<^verbatim>\<open>bool(value)\<close>\<close>

definition bool :: "bool \<Rightarrow> writer \<Rightarrow> error + writer" where
  "bool v w =
     (case ensure1 w of Inl e \<Rightarrow> Inl e | Inr w1 \<Rightarrow> put (if v then 1 else 0) w1)"

text \<open>\<^verbatim>\<open>fixed32(value)\<close> and \<^verbatim>\<open>sfixed32(value)\<close>\<close>

definition fixed32w :: "32 word \<Rightarrow> writer \<Rightarrow> error + writer" where
  "fixed32w v w =
     (case ensure 4 w of
        Inl e \<Rightarrow> Inl e
      | Inr w1 \<Rightarrow>
          puts [ucast (v AND 255),
                ucast ((drop_bit 8 v) AND 255),
                ucast ((drop_bit 16 v) AND 255),
                ucast ((drop_bit 24 v) AND 255)] w1)"

definition fixed32 :: "int \<Rightarrow> writer \<Rightarrow> error + writer" where
  "fixed32 v w = fixed32w (word_of_int v) w"

definition sfixed32 :: "int \<Rightarrow> writer \<Rightarrow> error + writer" where
  "sfixed32 v w = fixed32w (zigzag32 v) w"

text \<open>\<^verbatim>\<open>_writeLongFixed(lo, hi)\<close>, \<^verbatim>\<open>fixed64(value)\<close> and \<^verbatim>\<open>sfixed64(value)\<close>\<close>

definition writeLongFixed :: "32 word \<Rightarrow> 32 word \<Rightarrow> writer \<Rightarrow> error + writer" where
  "writeLongFixed lo hi w =
     (case ensure 8 w of
        Inl e \<Rightarrow> Inl e
      | Inr w1 \<Rightarrow>
          puts [ucast (lo AND 255),
                ucast ((drop_bit 8 lo) AND 255),
                ucast ((drop_bit 16 lo) AND 255),
                ucast (drop_bit 24 lo),
                ucast (hi AND 255),
                ucast ((drop_bit 8 hi) AND 255),
                ucast ((drop_bit 16 hi) AND 255),
                ucast (drop_bit 24 hi)] w1)"

fun fixed64 :: "long_value \<Rightarrow> writer \<Rightarrow> error + writer" where
  "fixed64 (Number v) w =
     (let bits = (if v \<noteq> 0 then LongBits_fromNumber v else LongBits_zero)
      in writeLongFixed (fst bits) (snd bits) w)"
| "fixed64 (Long l h) w = writeLongFixed (word_of_int l) (word_of_int h) w"

definition sfixed64 :: "long_value \<Rightarrow> writer \<Rightarrow> error + writer" where
  "sfixed64 v w = (let bits = zzEncode (LongBits_from v) in writeLongFixed (fst bits) (snd bits) w)"

text \<open>
  Modelled from the spec: the IEEE-754 codec (\<^verbatim>\<open>../lib/ieee754\<close>) is not part of the
  source. The spec has it write a 32-bit or 64-bit float into the byte buffer, little-endian.
  A floating-point argument is represented by its IEEE-754 bit pattern, and
  \<open>ieee754_write\<close> stores the \<open>nBytes\<close> low bytes of the pattern from \<open>offset\<close> on.
\<close>

fun le_bytes :: "nat \<Rightarrow> 64 word \<Rightarrow> byte list" where
  "le_bytes 0 x = []"
| "le_bytes (Suc n) x = ucast x # le_bytes n (drop_bit 8 x)"

fun store :: "byte list \<Rightarrow> nat \<Rightarrow> byte list \<Rightarrow> byte list" where
  "store b offset [] = b"
| "store b offset (v # vs) = store (b[offset := v]) (Suc offset) vs"

definition ieee754_write :: "byte list \<Rightarrow> 64 word \<Rightarrow> nat \<Rightarrow> nat \<Rightarrow> byte list" where
  "ieee754_write buffer bits offset nBytes = store buffer offset (le_bytes nBytes bits)"

text \<open>\<^verbatim>\<open>float(value)\<close> and \<^verbatim>\<open>double(value)\<close>\<close>

definition float :: "32 word \<Rightarrow> writer \<Rightarrow> error + writer" where
  "float v w =
     (case ensure 4 w of
        Inl e \<Rightarrow> Inl e
      | Inr w1 \<Rightarrow>
          (case buf w1 of
             None \<Rightarrow> Inl TypeError
           | Some b \<Rightarrow> Inr (w1\<lparr>buf := Some (ieee754_write b (ucast v) (pos w1) 4), pos := pos w1 + 4\<rparr>)))"

definition double :: "64 word \<Rightarrow> writer \<Rightarrow> error + writer" where
  "double v w =
     (case ensure 8 w of
        Inl e \<Rightarrow> Inl e
      | Inr w1 \<Rightarrow>
          (case buf w1 of
             None \<Rightarrow> Inl TypeError
           | Some b \<Rightarrow> Inr (w1\<lparr>buf := Some (ieee754_write b v (pos w1) 8), pos := pos w1 + 8\<rparr>)))"

text \<open>
  \<^verbatim>\<open>Uint8Array.prototype.set(array, offset)\<close>, the \<^verbatim>\<open>_set\<close> of the writer: a
  \<^verbatim>\<open>RangeError\<close> when the source does not fit.
\<close>

definition set_at :: "byte list \<Rightarrow> byte list \<Rightarrow> nat \<Rightarrow> error + byte list" where
  "set_at target src offset =
     (if offset + length src > length target then Inl RangeError
      else Inr (take offset target @ src @ drop (offset + length src) target))"

text \<open>\<^verbatim>\<open>bytes(value)\<close>; \<^verbatim>\<open>value.length >>> 0\<close> is the length modulo \<open>2 ^ 32\<close>.\<close>

definition bytes :: "byte list \<Rightarrow> writer \<Rightarrow> error + writer" where
  "bytes v w =
     (let n = length v mod 2 ^ 32 in
      if n \<noteq> 0 then
        (case uint32 (int n) w of
           Inl e \<Rightarrow> Inl e
         | Inr w1 \<Rightarrow>
             (case ensure n w1 of
                Inl e \<Rightarrow> Inl e
              | Inr w2 \<Rightarrow>
                  (case buf w2 of
                     None \<Rightarrow> Inl TypeError
                   | Some b \<Rightarrow>
                       (case set_at b v (pos w2) of
                          Inl e \<Rightarrow> Inl e
                        | Inr b' \<Rightarrow> Inr (w2\<lparr>buf := Some b', pos := pos w2 + n\<rparr>)))))
      else
        (case ensure1 w of Inl e \<Rightarrow> Inl e | Inr w1 \<Rightarrow> put 0 w1))"

text \<open>
  \<^verbatim>\<open>string(value)\<close>. A JavaScript string is the list of its UTF-16 code units; the code
  unit \<^verbatim>\<open>value.charCodeAt(i)\<close> enters the bit operations as a 32-bit integer. Both loops
  run over the first \<^verbatim>\<open>value.length >>> 0\<close> code units. \<open>surrogate_pair\<close> is the test
  \<^verbatim>\<open>(c1 & 0xFC00) === 0xD800 && i + 1 < len && ((c2 = value.charCodeAt(i + 1)) & 0xFC00) === 0xDC00\<close>.
\<close>

definition surrogate_pair :: "32 word \<Rightarrow> 16 word list \<Rightarrow> bool" where
  "surrogate_pair c1 rest =
     (c1 AND 0xFC00 = 0xD800 \<and>
      (case rest of [] \<Rightarrow> False | u2 # _ \<Rightarrow> (ucast u2 :: 32 word) AND 0xFC00 = 0xDC00))"

function string_blen :: "16 word list \<Rightarrow> nat \<Rightarrow> nat" where
  "string_blen [] blen = blen"
| "string_blen (u # us) blen =
     (let c1 = (ucast u :: 32 word) in
      if c1 < 128 then string_blen us (blen + 1)
      else if c1 < 2048 then string_blen us (blen + 2)
      else if surrogate_pair c1 us then string_blen (tl us) (blen + 4)
      else string_blen us (blen + 3))"
  by pat_completeness auto
termination
  by (relation "measure (\<lambda>(us, blen). length us)") auto

text \<open>The code point \<^verbatim>\<open>0x10000 + ((c1 & 0x03FF) << 10) + (c2 & 0x03FF)\<close>.\<close>

definition join_pair :: "32 word \<Rightarrow> 32 word \<Rightarrow> 32 word" where
  "join_pair c1 c2 = 0x10000 + push_bit 10 (c1 AND 0x03FF) + (c2 AND 0x03FF)"

function string_write :: "16 word list \<Rightarrow> writer \<Rightarrow> error + writer" where
  "string_write [] w = Inr w"
| "string_write (u # us) w =
     (let c1 = (ucast u :: 32 word) in
      if c1 < 128 then
        (case put (ucast c1) w of Inl e \<Rightarrow> Inl e | Inr w' \<Rightarrow> string_write us w')
      else if c1 < 2048 then
        (case puts [ucast ((signed_drop_bit 6 c1) OR 192),
                    ucast ((c1 AND 63) OR 128)] w of
           Inl e \<Rightarrow> Inl e
         | Inr w' \<Rightarrow> string_write us w')
      else if surrogate_pair c1 us then
        (let c = join_pair c1 (ucast (hd us)) in
         case puts [ucast ((signed_drop_bit 18 c) OR 240),
                    ucast (((signed_drop_bit 12 c) AND 63) OR 128),
                    ucast (((signed_drop_bit 6 c) AND 63) OR 128),
                    ucast ((c AND 63) OR 128)] w of
           Inl e \<Rightarrow> Inl e
         | Inr w' \<Rightarrow> string_write (tl us) w')
      else
        (case puts [ucast ((signed_drop_bit 12 c1) OR 224),
                    ucast (((signed_drop_bit 6 c1) AND 63) OR 128),
                    ucast ((c1 AND 63) OR 128)] w of
           Inl e \<Rightarrow> Inl e
         | Inr w' \<Rightarrow> string_write us w'))"
  by pat_completeness auto
termination
  by (relation "measure (\<lambda>(us, w). length us)") auto

definition string :: "16 word list \<Rightarrow> writer \<Rightarrow> error + writer" where
  "string v w =
     (let n = length v mod 2 ^ 32 in
      if n \<noteq> 0 then
        (let blen = string_blen (take n v) 0 in
         case uint32 (int blen) w of
           Inl e \<Rightarrow> Inl e
         | Inr w1 \<Rightarrow>
             (case ensure blen w1 of
                Inl e \<Rightarrow> Inl e
              | Inr w2 \<Rightarrow> string_write (take n v) w2))
      else
        (case ensure1 w of Inl e \<Rightarrow> Inl e | Inr w1 \<Rightarrow> put 0 w1))"

text \<open>\<^verbatim>\<open>fork()\<close>, \<^verbatim>\<open>reset()\<close> and \<^verbatim>\<open>finish()\<close>\<close>

definition State :: "writer \<Rightarrow> state" where
  "State w = \<lparr>s_bufs = bufs w, s_buf = buf w, s_pos = pos w, s_len = len w\<rparr>"

definition apply_state :: "state \<Rightarrow> writer \<Rightarrow> writer" where
  "apply_state s w = w\<lparr>bufs := s_bufs s, buf := s_buf s, pos := s_pos s, len := s_len s\<rparr>"

definition fork :: "writer \<Rightarrow> writer" where
  "fork w = w\<lparr>stack := stack w @ [State w], bufs := [], buf := None, pos := 0, len := 0\<rparr>"

definition reset :: "writer \<Rightarrow> writer" where
  "reset w =
     (if stack w \<noteq> [] then apply_state (last (stack w)) (w\<lparr>stack := butlast (stack w)\<rparr>)
      else w\<lparr>bufs := [], buf := None, pos := 0, len := 0\<rparr>)"

text \<open>The loop \<^verbatim>\<open>while (i < k) len += bufs[i++].length\<close>.\<close>

fun finish_len :: "byte list list \<Rightarrow> nat \<Rightarrow> nat" where
  "finish_len [] n = n"
| "finish_len (b # bs) n = finish_len bs (n + length b)"

text \<open>The loop that copies each sealed chunk into \<^verbatim>\<open>concat\<close> at \<^verbatim>\<open>pos\<close>.\<close>

fun finish_copy :: "byte list list \<Rightarrow> byte list \<Rightarrow> nat \<Rightarrow> error + (byte list \<times> nat)" where
  "finish_copy [] c p = Inr (c, p)"
| "finish_copy (sub # bs) c p =
     (case set_at c sub p of
        Inl e \<Rightarrow> Inl e
      | Inr c' \<Rightarrow> finish_copy bs c' (p + length sub))"

text \<open>
  \<^verbatim>\<open>finish()\<close> returns a chunk, a new array, or the value of \<^verbatim>\<open>emptyArray\<close> when
  \<^verbatim>\<open>buf\<close> is null: \<open>None\<close> is the result null.
\<close>

definition finish :: "writer \<Rightarrow> error + (byte list option \<times> writer)" where
  "finish w =
     (let bufs0 = bufs w; buf0 = buf w; pos0 = pos w; len0 = len w; w' = reset w in
      case buf0 of
        None \<Rightarrow> Inr (emptyArray w', w')
      | Some b \<Rightarrow>
          (let b1 = (if pos0 < len0 then take pos0 b else b) in
           if bufs0 = [] then Inr (Some b1, w')
           else
             (let (c0, w'') = alloc (finish_len bufs0 pos0) w' in
              case finish_copy bufs0 c0 0 of
                Inl e \<Rightarrow> Inl e
              | Inr (c, p) \<Rightarrow>
                  (case set_at c b1 p of
                     Inl e \<Rightarrow> Inl e
                   | Inr c' \<Rightarrow> Inr (Some c', w'')))))"

text \<open>
  One call of a writing method, and a sequence of such calls on the same writer. The
  first exception ends the sequence.
\<close>

datatype wop =
    W_tag int int
  | W_uint32 int
  | W_int32 int
  | W_sint32 int
  | W_uint64 long_value
  | W_int64 long_value
  | W_sint64 long_value
  | W_bool bool
  | W_fixed32 int
  | W_sfixed32 int
  | W_fixed64 long_value
  | W_sfixed64 long_value
  | W_float "32 word"
  | W_double "64 word"
  | W_bytes "byte list"
  | W_string "16 word list"

fun write_op :: "wop \<Rightarrow> writer \<Rightarrow> error + writer" where
  "write_op (W_tag i t) w = tag i t w"
| "write_op (W_uint32 v) w = uint32 v w"
| "write_op (W_int32 v) w = int32 v w"
| "write_op (W_sint32 v) w = sint32 v w"
| "write_op (W_uint64 v) w = uint64 v w"
| "write_op (W_int64 v) w = int64 v w"
| "write_op (W_sint64 v) w = sint64 v w"
| "write_op (W_bool v) w = bool v w"
| "write_op (W_fixed32 v) w = fixed32 v w"
| "write_op (W_sfixed32 v) w = sfixed32 v w"
| "write_op (W_fixed64 v) w = fixed64 v w"
| "write_op (W_sfixed64 v) w = sfixed64 v w"
| "write_op (W_float v) w = float v w"
| "write_op (W_double v) w = double v w"
| "write_op (W_bytes v) w = bytes v w"
| "write_op (W_string v) w = string v w"

fun write_ops :: "wop list \<Rightarrow> writer \<Rightarrow> error + writer" where
  "write_ops [] w = Inr w"
| "write_ops (x # xs) w = (case write_op x w of Inl e \<Rightarrow> Inl e | Inr w' \<Rightarrow> write_ops xs w')"

subsection \<open>Reference notions for the writer\<close>

text \<open>
  The bytes a writer holds: the sealed chunks in order, then \<^verbatim>\<open>buf[0..pos]\<close>. The
  invariant of the data model: \<open>pos \<le> len\<close>, \<^verbatim>\<open>buf\<close> is null exactly when \<open>len\<close> is
  zero, the current chunk has \<open>len\<close> bytes, and nothing is sealed while \<^verbatim>\<open>buf\<close> is
  null; the same for every snapshot on the stack.
\<close>

definition contents :: "writer \<Rightarrow> byte list" where
  "contents w = concat (bufs w) @ (case buf w of None \<Rightarrow> [] | Some b \<Rightarrow> take (pos w) b)"

definition buf_ok :: "byte list list \<Rightarrow> byte list option \<Rightarrow> nat \<Rightarrow> nat \<Rightarrow> bool" where
  "buf_ok bs b p l =
     (p \<le> l \<and> (case b of None \<Rightarrow> l = 0 \<and> bs = [] | Some x \<Rightarrow> l \<noteq> 0 \<and> length x = l))"

definition state_ok :: "state \<Rightarrow> bool" where
  "state_ok s = buf_ok (s_bufs s) (s_buf s) (s_pos s) (s_len s)"

definition winv :: "writer \<Rightarrow> bool" where
  "winv w = (buf_ok (bufs w) (buf w) (pos w) (len w) \<and> list_all state_ok (stack w))"

text \<open>
  \<open>setup_step w w'\<close>: from \<open>w\<close> to \<open>w'\<close> the variable \<^verbatim>\<open>emptyArray\<close> is unchanged, or it
  was null and \<^verbatim>\<open>setup\<close> has run. \<open>appends w bs w'\<close>: \<open>w'\<close> is \<open>w\<close> with the bytes \<open>bs\<close>
  written after its own.
\<close>

definition setup_step :: "writer \<Rightarrow> writer \<Rightarrow> bool" where
  "setup_step w w' =
     (emptyArray w' = emptyArray w \<or> (emptyArray w = None \<and> emptyArray w' = Some (alloc_array 0)))"

definition appends :: "writer \<Rightarrow> byte list \<Rightarrow> writer \<Rightarrow> bool" where
  "appends w bs w' =
     (winv w' \<and> contents w' = contents w @ bs \<and> stack w' = stack w \<and> setup_step w w')"

text \<open>
  The base-128 varint of a natural number: groups of seven bits, the least significant
  group first, the continuation bit (128) on every byte but the last.
\<close>

function varint :: "nat \<Rightarrow> byte list" where
  "varint n = (if n < 128 then [of_nat n] else of_nat (128 + n mod 128) # varint (n div 128))"
  by pat_completeness auto
termination
  by (relation "measure id") auto

text \<open>
  Modelled from the spec: the reader is not part of the source. A varint is read back
  group by group until a byte without the continuation bit; the result is the number and
  the bytes that follow it.
\<close>

fun read_varint :: "byte list \<Rightarrow> (nat \<times> byte list) option" where
  "read_varint [] = None"
| "read_varint (b # bs) =
     (if b < 128 then Some (unat b, bs)
      else (case read_varint bs of
              None \<Rightarrow> None
            | Some (n, r) \<Rightarrow> Some (unat b - 128 + 128 * n, r)))"

text \<open>
  The bytes one call of a writing method adds, whatever the writer holds: the reference
  the chunked writer is compared with. A 64-bit value is the number \<open>hi * 2 ^ 32 + lo\<close>
  of its halves; \<open>long_bits\<close> are the halves that \<^verbatim>\<open>uint64\<close> and \<^verbatim>\<open>fixed64\<close> pass on.
  \<open>string_bytes\<close> follows the second loop of \<^verbatim>\<open>string\<close> without the writer.
\<close>

definition long_nat :: "32 word \<times> 32 word \<Rightarrow> nat" where
  "long_nat bits = unat (snd bits) * 2 ^ 32 + unat (fst bits)"

fun long_bits :: "long_value \<Rightarrow> 32 word \<times> 32 word" where
  "long_bits (Number v) = (if v \<noteq> 0 then LongBits_fromNumber v else LongBits_zero)"
| "long_bits (Long l h) = (word_of_int l, word_of_int h)"

definition fixed32_bytes :: "32 word \<Rightarrow> byte list" where
  "fixed32_bytes v =
     [ucast (v AND 255), ucast ((drop_bit 8 v) AND 255),
      ucast ((drop_bit 16 v) AND 255), ucast ((drop_bit 24 v) AND 255)]"

definition fixed64_bytes :: "32 word \<times> 32 word \<Rightarrow> byte list" where
  "fixed64_bytes bits =
     [ucast (fst bits AND 255), ucast ((drop_bit 8 (fst bits)) AND 255),
      ucast ((drop_bit 16 (fst bits)) AND 255), ucast (drop_bit 24 (fst bits)),
      ucast (snd bits AND 255), ucast ((drop_bit 8 (snd bits)) AND 255),
      ucast ((drop_bit 16 (snd bits)) AND 255), ucast (drop_bit 24 (snd bits))]"

function string_bytes :: "16 word list \<Rightarrow> byte list" where
  "string_bytes [] = []"
| "string_bytes (u # us) =
     (let c1 = (ucast u :: 32 word) in
      if c1 < 128 then ucast c1 # string_bytes us
      else if c1 < 2048 then
        [ucast ((signed_drop_bit 6 c1) OR 192), ucast ((c1 AND 63) OR 128)] @ string_bytes us
      else if surrogate_pair c1 us then
        (let c = join_pair c1 (ucast (hd us)) in
         [ucast ((signed_drop_bit 18 c) OR 240),
          ucast (((signed_drop_bit 12 c) AND 63) OR 128),
          ucast (((signed_drop_bit 6 c) AND 63) OR 128),
          ucast ((c AND 63) OR 128)] @ string_bytes (tl us))
      else
        [ucast ((signed_drop_bit 12 c1) OR 224),
         ucast (((signed_drop_bit 6 c1) AND 63) OR 128),
         ucast ((c1 AND 63) OR 128)] @ string_bytes us)"
  by pat_completeness auto
termination
  by (relation "measure length") auto

definition js_length :: "'a list \<Rightarrow> nat" where
  "js_length v = length v mod 2 ^ 32"

fun wop_bytes :: "wop \<Rightarrow> byte list" where
  "wop_bytes (W_tag i t) = [tag_byte i t]"
| "wop_bytes (W_uint32 v) = varint (unat (word_of_int v :: 32 word))"
| "wop_bytes (W_int32 v) = varint (unat (word_of_int v :: 32 word))"
| "wop_bytes (W_sint32 v) = varint (unat (zigzag32 v))"
| "wop_bytes (W_uint64 v) = varint (long_nat (long_bits v))"
| "wop_bytes (W_int64 v) = varint (long_nat (long_bits v))"
| "wop_bytes (W_sint64 v) = varint (long_nat (zzEncode (LongBits_from v)))"
| "wop_bytes (W_bool v) = [if v then 1 else 0]"
| "wop_bytes (W_fixed32 v) = fixed32_bytes (word_of_int v)"
| "wop_bytes (W_sfixed32 v) = fixed32_bytes (zigzag32 v)"
| "wop_bytes (W_fixed64 v) = fixed64_bytes (long_bits v)"
| "wop_bytes (W_sfixed64 v) = fixed64_bytes (zzEncode (LongBits_from v))"
| "wop_bytes (W_float v) = le_bytes 4 (ucast v)"
| "wop_bytes (W_double v) = le_bytes 8 v"
| "wop_bytes (W_bytes v) = varint (length v) @ v"
| "wop_bytes (W_string v) =
     varint (string_blen (take (js_length v) v) 0 mod 2 ^ 32) @ string_bytes (take (js_length v) v)"

text \<open>
  A JavaScript array has fewer than \<open>2 ^ 32\<close> elements; that is all a call has to satisfy.
\<close>

fun wop_ok :: "wop \<Rightarrow> bool" where
  "wop_ok (W_bytes v) = (length v < 2 ^ 32)"
| "wop_ok _ = True"

text \<open>
  The public operations of a writer, run in sequence from a given writer. The bytes a
  \<^verbatim>\<open>finish()\<close> in the middle returns are dropped here; the writer it leaves is kept.
\<close>

datatype public_op = Write wop | Fork | Reset | Finish

fun public_ok :: "public_op \<Rightarrow> bool" where
  "public_ok (Write x) = wop_ok x"
| "public_ok _ = True"

fun run_op :: "public_op \<Rightarrow> writer \<Rightarrow> error + writer" where
  "run_op (Write x) w = write_op x w"
| "run_op Fork w = Inr (fork w)"
| "run_op Reset w = Inr (reset w)"
| "run_op Finish w = (case finish w of Inl e \<Rightarrow> Inl e | Inr (b, w') \<Rightarrow> Inr w')"

fun run :: "public_op list \<Rightarrow> writer \<Rightarrow> error + writer" where
  "run [] w = Inr w"
| "run (x # xs) w = (case run_op x w of Inl e \<Rightarrow> Inl e | Inr w' \<Rightarrow> run xs w')"

text \<open>
  A writer with one byte in its first chunk, as \<^verbatim>\<open>new Writer().uint32(1)\<close> leaves it, and
  the same writer after \<^verbatim>\<open>fork().bool(true)\<close>. The first allocation has run \<^verbatim>\<open>setup\<close>.
\<close>

definition one_byte_writer :: writer where
  "one_byte_writer =
     \<lparr>buf = Some ((alloc_array 256)[0 := 1]), pos = 1, len = 256, bufs = [], stack = [],
      emptyArray = Some (alloc_array 0)\<rparr>"

definition one_byte_forked :: writer where
  "one_byte_forked =
     \<lparr>buf = Some ((alloc_array 256)[0 := 1]), pos = 1, len = 256, bufs = [],
      stack = [\<lparr>s_bufs = [], s_buf = Some ((alloc_array 256)[0 := 1]), s_pos = 1, s_len = 256\<rparr>],
      emptyArray = Some (alloc_array 0)\<rparr>"

subsection \<open>Reference notions for strings\<close>

text \<open>
  UTF-16 and UTF-8 as the Unicode standard defines them, on numbers. The code points of
  a string join a high surrogate and the low surrogate after it; any other code unit is
  its own code point. \<open>utf8\<close> is the UTF-8 encoding of a string and its length the UTF-8
  byte length. A string is well formed when it has no unpaired surrogate.
\<close>

definition high_surrogate :: "16 word \<Rightarrow> bool" where
  "high_surrogate u = (0xD800 \<le> unat u \<and> unat u < 0xDC00)"

definition low_surrogate :: "16 word \<Rightarrow> bool" where
  "low_surrogate u = (0xDC00 \<le> unat u \<and> unat u < 0xE000)"

fun code_points :: "16 word list \<Rightarrow> nat list" where
  "code_points [] = []"
| "code_points [u] = [unat u]"
| "code_points (u1 # u2 # us) =
     (if high_surrogate u1 \<and> low_surrogate u2
      then (0x10000 + (unat u1 - 0xD800) * 0x400 + (unat u2 - 0xDC00)) # code_points us
      else unat u1 # code_points (u2 # us))"

fun well_formed_utf16 :: "16 word list \<Rightarrow> bool" where
  "well_formed_utf16 [] = True"
| "well_formed_utf16 [u] = (\<not> high_surrogate u \<and> \<not> low_surrogate u)"
| "well_formed_utf16 (u1 # u2 # us) =
     (if high_surrogate u1 then low_surrogate u2 \<and> well_formed_utf16 us
      else \<not> low_surrogate u1 \<and> well_formed_utf16 (u2 # us))"

definition utf8_of_cp :: "nat \<Rightarrow> byte list" where
  "utf8_of_cp cp =
     (if cp < 0x80 then [of_nat cp]
      else if cp < 0x800 then [of_nat (0xC0 + cp div 64), of_nat (0x80 + cp mod 64)]
      else if cp < 0x10000 then
        [of_nat (0xE0 + cp div 4096), of_nat (0x80 + cp div 64 mod 64), of_nat (0x80 + cp mod 64)]
      else
        [of_nat (0xF0 + cp div 262144), of_nat (0x80 + cp div 4096 mod 64),
         of_nat (0x80 + cp div 64 mod 64), of_nat (0x80 + cp mod 64)])"

definition utf8 :: "16 word list \<Rightarrow> byte list" where
  "utf8 s = concat (map utf8_of_cp (code_points s))"

text \<open>
  Modelled from the spec: the reader is not part of the source. A UTF-8 decoder reads a
  lead byte and its continuation bytes (\<open>10xxxxxx\<close>) into a code point. The strict
  decoder accepts only the shortest form of a code point up to \<open>0x10FFFF\<close> that is not
  a surrogate; the other one accepts every well-framed sequence. A code point goes back to
  one code unit, or to a surrogate pair from \<open>0x10000\<close> on.
\<close>

definition continuation :: "byte \<Rightarrow> bool" where
  "continuation b = (0x80 \<le> unat b \<and> unat b < 0xC0)"

definition accepted :: "bool \<Rightarrow> nat \<Rightarrow> nat \<Rightarrow> bool" where
  "accepted strict shortest cp =
     (if strict then shortest \<le> cp \<and> cp \<le> 0x10FFFF \<and> (cp < 0xD800 \<or> 0xE000 \<le> cp) else True)"

fun utf8_decode :: "bool \<Rightarrow> byte list \<Rightarrow> nat list option" where
  "utf8_decode strict [] = Some []"
| "utf8_decode strict (b0 # bs) =
     (let n = unat b0 in
      if n < 0x80 then map_option (Cons n) (utf8_decode strict bs)
      else if n < 0xC0 then None
      else if n < 0xE0 then
        (case bs of
           b1 # r \<Rightarrow>
             (let cp = (n - 0xC0) * 64 + (unat b1 - 0x80) in
              if continuation b1 \<and> accepted strict 0x80 cp
              then map_option (Cons cp) (utf8_decode strict r) else None)
         | _ \<Rightarrow> None)
      else if n < 0xF0 then
        (case bs of
           b1 # b2 # r \<Rightarrow>
             (let cp = (n - 0xE0) * 4096 + (unat b1 - 0x80) * 64 + (unat b2 - 0x80) in
              if continuation b1 \<and> continuation b2 \<and> accepted strict 0x800 cp
              then map_option (Cons cp) (utf8_decode strict r) else None)
         | _ \<Rightarrow> None)
      else if n < 0xF8 then
        (case bs of
           b1 # b2 # b3 # r \<Rightarrow>
             (let cp = (n - 0xF0) * 262144 + (unat b1 - 0x80) * 4096 + (unat b2 - 0x80) * 64
                       + (unat b3 - 0x80) in
              if continuation b1 \<and> continuation b2 \<and> continuation b3 \<and> accepted strict 0x10000 cp
              then map_option (Cons cp) (utf8_decode strict r) else None)
         | _ \<Rightarrow> None)
      else None)"

definition utf16_of_cp :: "nat \<Rightarrow> 16 word list" where
  "utf16_of_cp cp =
     (if cp < 0x10000 then [of_nat cp]
      else [of_nat (0xD800 + (cp - 0x10000) div 0x400), of_nat (0xDC00 + (cp - 0x10000) mod 0x400)])"

definition decode_string :: "bool \<Rightarrow> byte list \<Rightarrow> 16 word list option" where
  "decode_string strict bs = map_option (\<lambda>cps. concat (map utf16_of_cp cps)) (utf8_decode strict bs)"

section \<open>Fields (src/unnamed/part_000, the Field class)\<close>

text \<open>
  JSON values and the JavaScript values a constructor can receive. A number is an integer
  or, as \<open>JNonInt\<close>, any other number; the code only asks whether a number is an
  integer. An object is the list of its properties in insertion order; reading a property
  that is not there gives \<^verbatim>\<open>undefined\<close>, and reading a property of \<^verbatim>\<open>null\<close> or
  \<^verbatim>\<open>undefined\<close> is a \<^verbatim>\<open>TypeError\<close>. Property names that live on \<^verbatim>\<open>Object.prototype\<close>
  are left out of the model.
\<close>

datatype json =
    JUndefined
  | JNull
  | JBool bool
  | JNum int
  | JNonInt
  | JStr string
  | JArr "json list"
  | JObj "(string \<times> json) list"

fun get_prop :: "json \<Rightarrow> string \<Rightarrow> error + json" where
  "get_prop (JObj kvs) k = Inr (case map_of kvs k of None \<Rightarrow> JUndefined | Some v \<Rightarrow> v)"
| "get_prop JUndefined k = Inl TypeError"
| "get_prop JNull k = Inl TypeError"
| "get_prop _ k = Inr JUndefined"

text \<open>JavaScript truthiness, for \<^verbatim>\<open>json && \<dots>\<close> and \<^verbatim>\<open>!json.fields\<close>.\<close>

fun truthy :: "json \<Rightarrow> bool" where
  "truthy JUndefined = False"
| "truthy JNull = False"
| "truthy (JBool b) = b"
| "truthy (JNum n) = (n \<noteq> 0)"
| "truthy JNonInt = True"
| "truthy (JStr s) = (s \<noteq> [])"
| "truthy (JArr xs) = True"
| "truthy (JObj kvs) = True"

text \<open>
  Modelled from the spec: the helpers of \<^verbatim>\<open>./util\<close> are not part of the source. The spec
  names the arguments the Field constructor rejects: an id that is negative or not an
  integer, a type that is not a string, an invalid rule; \<open>isObject\<close>, \<open>isInteger\<close> and
  \<open>isString\<close> are the tests these names stand for. \<open>JNonInt\<close> stands for the finite
  fractions here; a truthy \<open>JNonInt\<close> has this one use.
\<close>

fun isObject :: "json \<Rightarrow> bool" where
  "isObject (JObj kvs) = True"
| "isObject (JArr xs) = True"
| "isObject _ = False"

fun isInteger :: "json \<Rightarrow> bool" where
  "isInteger (JNum n) = True"
| "isInteger _ = False"

fun isString :: "json \<Rightarrow> bool" where
  "isString (JStr s) = True"
| "isString _ = False"

text \<open>
  \<^verbatim>\<open>/^required|optional|repeated$/.test(rule = rule.toString().toLowerCase())\<close>: the
  pattern is an alternation of \<^verbatim>\<open>^required\<close>, \<^verbatim>\<open>optional\<close> and \<^verbatim>\<open>repeated$\<close>. Strings are
  taken as ASCII.
\<close>

definition toLowerCase :: "string \<Rightarrow> string" where
  "toLowerCase s =
     map (\<lambda>c. if 65 \<le> (of_char c :: nat) \<and> (of_char c :: nat) \<le> 90
               then char_of ((of_char c :: nat) + 32) else c) s"

definition rule_pattern :: "string \<Rightarrow> bool" where
  "rule_pattern s = (prefix ''required'' s \<or> sublist ''optional'' s \<or> suffix ''repeated'' s)"

text \<open>
  The rule after \<^verbatim>\<open>rule.toString().toLowerCase()\<close> and the test: \<^verbatim>\<open>undefined\<close> is left as
  it is; \<^verbatim>\<open>null\<close> has no \<^verbatim>\<open>toString\<close>; the string of a number or of a boolean never
  matches the pattern.
\<close>

fun checked_rule :: "json \<Rightarrow> error + string option" where
  "checked_rule JUndefined = Inr None"
| "checked_rule (JStr s) =
     (if rule_pattern (toLowerCase s) then Inr (Some (toLowerCase s)) else Inl TypeError)"
| "checked_rule _ = Inl TypeError"

text \<open>
  The class of the object a resolved field points to, as far as \<^verbatim>\<open>encode\<close> looks at it.
\<close>

datatype cls = Enum | Type | Service | Field | Namespace | Other

record field =
  f_name :: string
  f_options :: json
  f_rule :: "string option"
  f_type :: string
  f_id :: int
  f_extend :: "string option"
  f_required :: bool
  f_optional :: bool
  f_repeated :: bool
  f_map :: bool
  f_resolvedType :: "cls option"
  f_packed :: "bool option"

text \<open>
  \<^verbatim>\<open>new Field(name, id, type, rule, extend, options)\<close>. Modelled from the spec:
  \<^verbatim>\<open>ReflectionObject.call(this, name, options)\<close> is not part of the source; it keeps the name
  and the options.
\<close>

definition Field_new :: "string \<Rightarrow> json \<Rightarrow> json \<Rightarrow> json \<Rightarrow> json \<Rightarrow> json \<Rightarrow> error + field" where
  "Field_new name i type rule0 extend0 options0 =
     (let (rule1, extend1, options1) =
            (if isObject rule0 then (JUndefined, JUndefined, rule0)
             else if isObject extend0 then (rule0, JUndefined, extend0)
             else (rule0, extend0, options0))
      in
      if \<not> isInteger i \<or> (case i of JNum n \<Rightarrow> n < 0 | _ \<Rightarrow> False) then Inl TypeError
      else if \<not> isString type then Inl TypeError
      else if extend1 \<noteq> JUndefined \<and> \<not> isString extend1 then Inl TypeError
      else
        (case checked_rule rule1 of
           Inl e \<Rightarrow> Inl e
         | Inr rule \<Rightarrow>
             Inr \<lparr>f_name = name,
                  f_options = options1,
                  f_rule = (case rule of Some r \<Rightarrow> (if r \<noteq> [] \<and> r \<noteq> ''optional'' then Some r else None)
                                       | None \<Rightarrow> None),
                  f_type = (case type of JStr s \<Rightarrow> s | _ \<Rightarrow> []),
                  f_id = (case i of JNum n \<Rightarrow> n | _ \<Rightarrow> 0),
                  f_extend = (case extend1 of JStr s \<Rightarrow> (if s \<noteq> [] then Some s else None) | _ \<Rightarrow> None),
                  f_required = (rule = Some ''required''),
                  f_optional = (\<not> (rule = Some ''required'')),
                  f_repeated = (rule = Some ''repeated''),
                  f_map = False,
                  f_resolvedType = None,
                  f_packed = None\<rparr>))"

text \<open>\<^verbatim>\<open>Field.testJSON(json)\<close> and \<^verbatim>\<open>Field.fromJSON(name, json)\<close>\<close>

definition Field_testJSON :: "json \<Rightarrow> error + bool" where
  "Field_testJSON json =
     (if \<not> truthy json then Inr False
      else (case get_prop json ''id'' of Inl e \<Rightarrow> Inl e | Inr v \<Rightarrow> Inr (v \<noteq> JUndefined)))"

definition Field_fromJSON :: "string \<Rightarrow> json \<Rightarrow> error + field" where
  "Field_fromJSON name json =
     (case get_prop json ''id'' of Inl e \<Rightarrow> Inl e | Inr i \<Rightarrow>
      case get_prop json ''type'' of Inl e \<Rightarrow> Inl e | Inr t \<Rightarrow>
      case get_prop json ''role'' of Inl e \<Rightarrow> Inl e | Inr r \<Rightarrow>
      case get_prop json ''extend'' of Inl e \<Rightarrow> Inl e | Inr x \<Rightarrow>
      case get_prop json ''options'' of Inl e \<Rightarrow> Inl e | Inr opts \<Rightarrow>
        Field_new name i t r x opts)"

text \<open>
  The field JSON of the spec's dialect with the rule \<^verbatim>\<open>repeated\<close>:
  \<^verbatim>\<open>{"id": 1, "type": "int32", "rule": "repeated"}\<close>.
\<close>

definition repeated_field_json :: json where
  "repeated_field_json =
     JObj [(''id'', JNum 1), (''type'', JStr ''int32''), (''rule'', JStr ''repeated'')]"

text \<open>
  Modelled from the spec: the types table (\<^verbatim>\<open>./types\<close>) is not part of the source. The
  spec lists the scalar type names with their wire types (0 varint, 1 fixed64, 2
  length-delimited, 5 fixed32) and has every numeric type and \<^verbatim>\<open>bool\<close> packable.
\<close>

definition wireTypes :: "string \<Rightarrow> int option" where
  "wireTypes = map_of
     [(''double'', 1), (''float'', 5), (''int32'', 0), (''uint32'', 0), (''sint32'', 0),
      (''fixed32'', 5), (''sfixed32'', 5), (''int64'', 0), (''uint64'', 0), (''sint64'', 0),
      (''fixed64'', 1), (''sfixed64'', 1), (''bool'', 0), (''string'', 2), (''bytes'', 2)]"

definition packableWireTypes :: "string \<Rightarrow> int option" where
  "packableWireTypes = map_of
     [(''double'', 1), (''float'', 5), (''int32'', 0), (''uint32'', 0), (''sint32'', 0),
      (''fixed32'', 5), (''sfixed32'', 5), (''int64'', 0), (''uint64'', 0), (''sint64'', 0),
      (''fixed64'', 1), (''sfixed64'', 1), (''bool'', 0)]"

text \<open>
  The values a field can hold, and \<^verbatim>\<open>writer[type](value)\<close>: the method of that name
  applied to the value. A name that is no method of the writer is a \<^verbatim>\<open>TypeError\<close>. A
  method applied to a value of another kind than its documented parameter would go through
  JavaScript's coercions; the embedding does not cover those calls and marks them
  \<open>Unmodelled\<close>. A floating-point number is given by its IEEE-754 bit pattern.
\<close>

datatype scalar =
    VNum int
  | VBool bool
  | VLong int int
  | VFloat "32 word"
  | VDouble "64 word"
  | VBytes "byte list"
  | VString "16 word list"

fun long_arg :: "scalar \<Rightarrow> long_value option" where
  "long_arg (VNum n) = Some (Number n)"
| "long_arg (VLong l h) = Some (Long l h)"
| "long_arg _ = None"

definition method_call :: "string \<Rightarrow> scalar \<Rightarrow> wop option option" where
  "method_call type v =
     (if type = ''uint32'' then Some (case v of VNum n \<Rightarrow> Some (W_uint32 n) | _ \<Rightarrow> None)
      else if type = ''int32'' then Some (case v of VNum n \<Rightarrow> Some (W_int32 n) | _ \<Rightarrow> None)
      else if type = ''sint32'' then Some (case v of VNum n \<Rightarrow> Some (W_sint32 n) | _ \<Rightarrow> None)
      else if type = ''fixed32'' then Some (case v of VNum n \<Rightarrow> Some (W_fixed32 n) | _ \<Rightarrow> None)
      else if type = ''sfixed32'' then Some (case v of VNum n \<Rightarrow> Some (W_sfixed32 n) | _ \<Rightarrow> None)
      else if type = ''uint64'' then Some (map_option W_uint64 (long_arg v))
      else if type = ''int64'' then Some (map_option W_int64 (long_arg v))
      else if type = ''sint64'' then Some (map_option W_sint64 (long_arg v))
      else if type = ''fixed64'' then Some (map_option W_fixed64 (long_arg v))
      else if type = ''sfixed64'' then Some (map_option W_sfixed64 (long_arg v))
      else if type = ''bool'' then Some (case v of VBool b \<Rightarrow> Some (W_bool b) | _ \<Rightarrow> None)
      else if type = ''float'' then Some (case v of VFloat x \<Rightarrow> Some (W_float x) | _ \<Rightarrow> None)
      else if type = ''double'' then Some (case v of VDouble x \<Rightarrow> Some (W_double x) | _ \<Rightarrow> None)
      else if type = ''bytes'' then Some (case v of VBytes b \<Rightarrow> Some (W_bytes b) | _ \<Rightarrow> None)
      else if type = ''string'' then Some (case v of VString s \<Rightarrow> Some (W_string s) | _ \<Rightarrow> None)
      else None)"

definition write_typed :: "string \<Rightarrow> scalar \<Rightarrow> writer \<Rightarrow> error + writer" where
  "write_typed type v w =
     (case method_call type v of
        None \<Rightarrow> Inl TypeError
      | Some None \<Rightarrow> Inl Unmodelled
      | Some (Some x) \<Rightarrow> write_op x w)"

text \<open>
  The getter \<^verbatim>\<open>packed\<close>: \<^verbatim>\<open>this.getOption("packed") !== false\<close>, kept in \<^verbatim>\<open>_packed\<close> once
  computed. Modelled from the spec: \<^verbatim>\<open>getOption\<close> of the base class is not part of the
  source; it reads the named entry of the options map, \<^verbatim>\<open>undefined\<close> without one.
\<close>

definition getOption :: "field \<Rightarrow> string \<Rightarrow> json" where
  "getOption f k = (case f_options f of JObj kvs \<Rightarrow> (case map_of kvs k of None \<Rightarrow> JUndefined | Some v \<Rightarrow> v)
                                      | _ \<Rightarrow> JUndefined)"

definition packed :: "field \<Rightarrow> bool" where
  "packed f = (case f_packed f of Some b \<Rightarrow> b | None \<Rightarrow> getOption f ''packed'' \<noteq> JBool False)"

text \<open>
  \<^verbatim>\<open>encode_internal(value, writer)\<close>, with \<^verbatim>\<open>this\<close> the field. The value is one
  scalar or, for a repeated field, the array of its elements; an array where one value is
  expected, and the reverse, are not covered. \<^verbatim>\<open>encodeDelimited_\<close> of the resolved type is
  not part of the source and is a parameter, absent (\<open>None\<close>) when \<^verbatim>\<open>resolvedType\<close> is
  null or has no such method. \<^verbatim>\<open>buf.length\<close> on the null that \<^verbatim>\<open>finish()\<close> can return
  is a \<^verbatim>\<open>TypeError\<close>.
\<close>

datatype fvalue = One scalar | Many "scalar list"

fun write_elements :: "string \<Rightarrow> scalar list \<Rightarrow> writer \<Rightarrow> error + writer" where
  "write_elements type [] w = Inr w"
| "write_elements type (v # vs) w =
     (case write_typed type v w of Inl e \<Rightarrow> Inl e | Inr w' \<Rightarrow> write_elements type vs w')"

fun encode_delimited_all ::
  "(scalar \<Rightarrow> writer \<Rightarrow> error + writer) option \<Rightarrow> int \<Rightarrow> scalar list \<Rightarrow> writer \<Rightarrow> error + writer" where
  "encode_delimited_all ed i [] w = Inr w"
| "encode_delimited_all ed i (v # vs) w =
     (case tag i 2 w of
        Inl e \<Rightarrow> Inl e
      | Inr w1 \<Rightarrow>
          (case ed of
             None \<Rightarrow> Inl TypeError
           | Some f \<Rightarrow> (case f v w1 of Inl e \<Rightarrow> Inl e | Inr w' \<Rightarrow> encode_delimited_all ed i vs w')))"

definition encode_type :: "field \<Rightarrow> string" where
  "encode_type f = (if f_resolvedType f = Some Enum then ''uint32'' else f_type f)"

definition encode_internal ::
  "(scalar \<Rightarrow> writer \<Rightarrow> error + writer) option \<Rightarrow> field \<Rightarrow> fvalue \<Rightarrow> writer \<Rightarrow> error + writer" where
  "encode_internal ed f value w =
     (let type = encode_type f in
      if f_repeated f then
        (case value of
           One v \<Rightarrow> Inl Unmodelled
         | Many vs \<Rightarrow>
        (if packed f \<and> packableWireTypes type \<noteq> None then
           (case write_elements type vs (fork w) of
              Inl e \<Rightarrow> Inl e
            | Inr w1 \<Rightarrow>
                (case finish w1 of
                   Inl e \<Rightarrow> Inl e
                 | Inr (None, w2) \<Rightarrow> Inl TypeError
                 | Inr (Some b, w2) \<Rightarrow>
                     if length b \<noteq> 0 then
                       (case tag (f_id f) 2 w2 of Inl e \<Rightarrow> Inl e | Inr w3 \<Rightarrow> bytes b w3)
                     else Inr w2))
         else encode_delimited_all ed (f_id f) vs w))
      else
        (case value of
           One v \<Rightarrow>
             (case wireTypes type of
                Some wireType \<Rightarrow>
                  (case tag (f_id f) wireType w of Inl e \<Rightarrow> Inl e | Inr w1 \<Rightarrow> write_typed type v w1)
              | None \<Rightarrow>
                  (case tag (f_id f) 2 w of
                     Inl e \<Rightarrow> Inl e
                   | Inr w1 \<Rightarrow> (case ed of None \<Rightarrow> Inl TypeError | Some g \<Rightarrow> g v w1)))
         | Many vs \<Rightarrow> Inl Unmodelled))"

text \<open>
  The bytes of the elements of a packed field, one after the other, and the packed
  \<^verbatim>\<open>repeated int32 = [1, 2, 150]\<close> on field id 3 of the spec.
\<close>

definition element_bytes :: "string \<Rightarrow> scalar \<Rightarrow> byte list" where
  "element_bytes type v = (case method_call type v of Some (Some x) \<Rightarrow> wop_bytes x | _ \<Rightarrow> [])"

definition typed :: "string \<Rightarrow> scalar \<Rightarrow> bool" where
  "typed type v = (case method_call type v of Some (Some x) \<Rightarrow> True | _ \<Rightarrow> False)"

definition packed_int32_field :: field where
  "packed_int32_field =
     \<lparr>f_name = ''xs'', f_options = JUndefined, f_rule = Some ''repeated'', f_type = ''int32'',
      f_id = 3, f_extend = None, f_required = False, f_optional = True, f_repeated = True,
      f_map = False, f_resolvedType = None, f_packed = None\<rparr>"

section \<open>Namespaces (src/unnamed/part_001, the Namespace class)\<close>

text \<open>
  The reflection tree is a store of objects reached by reference: a reflection object has
  its class, its name, the reference of its parent or null, its \<^verbatim>\<open>nested\<close> map (\<open>None\<close> is
  \<^verbatim>\<open>undefined\<close>; the entries are in insertion order, which is the order of
  \<^verbatim>\<open>Object.keys\<close>), the \<^verbatim>\<open>extend\<close> of a field, and the \<^verbatim>\<open>resolved\<close> flag. \<open>h_next\<close> is the
  reference the next \<^verbatim>\<open>new\<close> gives.

  Modelled from the spec: the base class \<^verbatim>\<open>ReflectionObject\<close> and the classes \<^verbatim>\<open>Type\<close>,
  \<^verbatim>\<open>Enum\<close> and \<^verbatim>\<open>Service\<close> are not part of the source. After the spec, \<^verbatim>\<open>Type\<close> extends
  \<^verbatim>\<open>Namespace\<close> and inherits its \<^verbatim>\<open>add\<close> and \<^verbatim>\<open>lookup\<close>; \<^verbatim>\<open>Service\<close> is taken to extend
  \<^verbatim>\<open>Namespace\<close> as well; \<^verbatim>\<open>Enum\<close> and \<^verbatim>\<open>Field\<close> are reflection objects without nested
  objects and without \<^verbatim>\<open>lookup\<close>. \<^verbatim>\<open>onAdd(parent)\<close> sets the parent and clears the
  \<^verbatim>\<open>resolved\<close> flag; \<^verbatim>\<open>onRemove(parent)\<close> clears the parent.
\<close>

record robj =
  o_cls :: cls
  o_name :: string
  o_parent :: "nat option"
  o_nested :: "(string \<times> nat) list option"
  o_extend :: "string option"
  o_resolved :: bool

record heap =
  h_obj :: "nat \<Rightarrow> robj"
  h_next :: nat

definition upd :: "nat \<Rightarrow> (robj \<Rightarrow> robj) \<Rightarrow> heap \<Rightarrow> heap" where
  "upd r g h = h\<lparr>h_obj := (h_obj h)(r := g (h_obj h r))\<rparr>"

definition instanceof_Namespace :: "robj \<Rightarrow> bool" where
  "instanceof_Namespace ob = (o_cls ob = Namespace \<or> o_cls ob = Type \<or> o_cls ob = Service)"

definition instanceof_Type :: "robj \<Rightarrow> bool" where
  "instanceof_Type ob = (o_cls ob = Type)"

definition instanceof_Field :: "robj \<Rightarrow> bool" where
  "instanceof_Field ob = (o_cls ob = Field)"

definition nestedTypes :: "cls list" where
  "nestedTypes = [Enum, Type, Service, Field, Namespace]"

definition onAdd :: "nat \<Rightarrow> nat \<Rightarrow> heap \<Rightarrow> heap" where
  "onAdd object parent h = upd object (\<lambda>ob. ob\<lparr>o_parent := Some parent, o_resolved := False\<rparr>) h"

definition onRemove :: "nat \<Rightarrow> nat \<Rightarrow> heap \<Rightarrow> heap" where
  "onRemove object parent h = upd object (\<lambda>ob. ob\<lparr>o_parent := None\<rparr>) h"

text \<open>
  The getter \<^verbatim>\<open>empty\<close>: \<^verbatim>\<open>Boolean(this.nested && Object.keys(this.nested).length)\<close>.
\<close>

definition empty :: "heap \<Rightarrow> nat \<Rightarrow> bool" where
  "empty h this = (case o_nested (h_obj h this) of None \<Rightarrow> False | Some m \<Rightarrow> length m \<noteq> 0)"

text \<open>\<^verbatim>\<open>get(name)\<close>: \<^verbatim>\<open>this.nested && this.nested[name] || null\<close>\<close>

definition get :: "heap \<Rightarrow> nat \<Rightarrow> string \<Rightarrow> nat option" where
  "get h this name = (case o_nested (h_obj h this) of None \<Rightarrow> None | Some m \<Rightarrow> map_of m name)"

text \<open>
  \<^verbatim>\<open>delete map[name]\<close> and \<^verbatim>\<open>map[name] = object\<close> on a map in insertion order: a new name
  goes to the end, a name that is there keeps its place.
\<close>

definition delete_key :: "string \<Rightarrow> (string \<times> nat) list \<Rightarrow> (string \<times> nat) list" where
  "delete_key k m = filter (\<lambda>kv. fst kv \<noteq> k) m"

fun set_key :: "string \<Rightarrow> nat \<Rightarrow> (string \<times> nat) list \<Rightarrow> (string \<times> nat) list" where
  "set_key k v [] = [(k, v)]"
| "set_key k v ((k', v') # m) = (if k' = k then (k, v) # m else (k', v') # set_key k v m)"

text \<open>
  \<^verbatim>\<open>remove(object)\<close>. Every reference is a reflection object, so the first test never
  fires. \<^verbatim>\<open>delete this.nested[\<dots>]\<close> on an undefined map is a \<^verbatim>\<open>TypeError\<close>.
\<close>

definition remove :: "heap \<Rightarrow> nat \<Rightarrow> nat \<Rightarrow> error + heap" where
  "remove h this object =
     (if o_parent (h_obj h object) \<noteq> Some this then Inl Error
      else
        (case o_nested (h_obj h this) of
           None \<Rightarrow> Inl TypeError
         | Some m \<Rightarrow>
             (let h1 = upd this (\<lambda>t. t\<lparr>o_nested := Some (delete_key (o_name (h_obj h object)) m)\<rparr>) h;
                  h2 = (if empty h1 this then upd this (\<lambda>t. t\<lparr>o_nested := None\<rparr>) h1 else h1)
              in Inr (onRemove object this h2))))"

text \<open>
  \<^verbatim>\<open>each(fn, ctx)\<close> on the nested map of \<^verbatim>\<open>this\<close>: the names are taken when the loop
  starts, the object of a name is read when its turn comes (\<^verbatim>\<open>undefined\<close> if it is gone),
  and the loop ends at the first call of \<^verbatim>\<open>fn\<close> that returns something else than
  \<^verbatim>\<open>undefined\<close>. The function \<open>fn\<close> gives the store it leaves and whether it returned
  something else than \<^verbatim>\<open>undefined\<close>; \<open>None\<close> is a run that needs more fuel.
\<close>

fun each_loop ::
  "(heap \<Rightarrow> nat option \<Rightarrow> string \<Rightarrow> (error + heap \<times> bool) option) \<Rightarrow> nat \<Rightarrow> string list \<Rightarrow> heap
     \<Rightarrow> (error + heap) option" where
  "each_loop fn this [] h = Some (Inr h)"
| "each_loop fn this (n # ns) h =
     (case fn h (get h this n) n of
        None \<Rightarrow> None
      | Some (Inl e) \<Rightarrow> Some (Inl e)
      | Some (Inr (h', True)) \<Rightarrow> Some (Inr h')
      | Some (Inr (h', False)) \<Rightarrow> each_loop fn this ns h')"

definition each ::
  "(heap \<Rightarrow> nat option \<Rightarrow> string \<Rightarrow> (error + heap \<times> bool) option) \<Rightarrow> heap \<Rightarrow> nat \<Rightarrow> (error + heap) option" where
  "each fn h this =
     (case o_nested (h_obj h this) of
        None \<Rightarrow> Some (Inr h)
      | Some m \<Rightarrow> each_loop fn this (map fst m) h)"

text \<open>
  \<^verbatim>\<open>add(object)\<close>, with fuel for the calls of \<^verbatim>\<open>object.add\<close> that \<^verbatim>\<open>each\<close> makes; the
  argument is \<open>None\<close> for \<^verbatim>\<open>undefined\<close>. As the function given to \<^verbatim>\<open>each\<close>, \<^verbatim>\<open>add\<close>
  returns \<^verbatim>\<open>this\<close>, which is not \<^verbatim>\<open>undefined\<close>.
\<close>

definition store_child :: "heap \<Rightarrow> nat \<Rightarrow> nat \<Rightarrow> error + heap" where
  "store_child h this object =
     (case o_nested (h_obj h this) of
        None \<Rightarrow> Inl TypeError
      | Some m \<Rightarrow>
          Inr (onAdd object this
                 (upd this (\<lambda>t. t\<lparr>o_nested := Some (set_key (o_name (h_obj h object)) object m)\<rparr>) h)))"

fun add :: "nat \<Rightarrow> heap \<Rightarrow> nat \<Rightarrow> nat option \<Rightarrow> (error + heap) option" where
  "add 0 h this object = None"
| "add (Suc fuel) h this None = Some (Inl TypeError)"
| "add (Suc fuel) h this (Some object) =
     (if o_cls (h_obj h object) \<notin> set nestedTypes then Some (Inl TypeError)
      else if instanceof_Field (h_obj h object) \<and> o_extend (h_obj h object) = None
        then Some (Inl TypeError)
      else if o_nested (h_obj h this) = None
        then Some (store_child (upd this (\<lambda>t. t\<lparr>o_nested := Some []\<rparr>) h) this object)
      else
        (case get h this (o_name (h_obj h object)) of
           None \<Rightarrow> Some (store_child h this object)
         | Some prev \<Rightarrow>
             if instanceof_Namespace (h_obj h prev) \<and> \<not> instanceof_Type (h_obj h prev)
                \<and> instanceof_Type (h_obj h object)
             then
               (case each (\<lambda>h' child name.
                             map_option (map_sum id (\<lambda>h''. (h'', True))) (add fuel h' object child))
                          h prev of
                  None \<Rightarrow> None
                | Some (Inl e) \<Rightarrow> Some (Inl e)
                | Some (Inr h1) \<Rightarrow>
                    (case remove h1 this prev of
                       Inl e \<Rightarrow> Some (Inl e)
                     | Inr h2 \<Rightarrow> Some (store_child h2 this object)))
             else Some (Inl Error)))"

text \<open>
  Modelled from the spec: the getter \<^verbatim>\<open>root\<close> of the base class is not part of the source;
  an absolute path restarts at the root, the object reached by following the parents. A
  run that does not end is \<open>None\<close>.
\<close>

partial_function (option) root :: "heap \<Rightarrow> nat \<Rightarrow> nat option" where
  "root h this =
     (case o_parent (h_obj h this) of
        None \<Rightarrow> Some this
      | Some p \<Rightarrow> root h p)"

text \<open>
  \<^verbatim>\<open>lookup(path, parentAlreadyChecked)\<close> on a path given as the array of its segments (a
  dotted string is split at the dots first; the empty string gives null). The result is
  \<open>Some (Some r)\<close> for the object \<open>r\<close>, \<open>Some None\<close> for null, and \<open>None\<close> for a run that
  does not end. \<open>retry\<close> is the end of the function: null when there is no parent or the
  parent has been checked, the lookup of the whole path at the parent otherwise.
\<close>

partial_function (option) lookup :: "heap \<Rightarrow> nat \<Rightarrow> string list \<Rightarrow> bool \<Rightarrow> nat option option" where
  "lookup h this path parentAlreadyChecked =
     (case path of
        [] \<Rightarrow> Some None
      | p0 # rest \<Rightarrow>
          if p0 = [] then
            (case root h this of None \<Rightarrow> None | Some r \<Rightarrow> lookup h r rest False)
          else
            (case get h this p0 of
               None \<Rightarrow>
                 (case o_parent (h_obj h this) of
                    None \<Rightarrow> Some None
                  | Some p \<Rightarrow> if parentAlreadyChecked then Some None else lookup h p path False)
             | Some found \<Rightarrow>
                 if rest = [] then Some (Some found)
                 else if instanceof_Namespace (h_obj h found) then
                   Option.bind (lookup h found rest True)
                     (\<lambda>res. case res of
                        Some r \<Rightarrow> Some (Some r)
                      | None \<Rightarrow>
                          (case o_parent (h_obj h this) of
                             None \<Rightarrow> Some None
                           | Some p \<Rightarrow> if parentAlreadyChecked then Some None else lookup h p path False))
                 else
                   (case o_parent (h_obj h this) of
                      None \<Rightarrow> Some None
                    | Some p \<Rightarrow> if parentAlreadyChecked then Some None else lookup h p path False)))"

text \<open>
  The classifiers \<^verbatim>\<open>testJSON\<close>. Those of \<^verbatim>\<open>Field\<close> and \<^verbatim>\<open>Namespace\<close> are in the source.
  Modelled from the spec: those of \<^verbatim>\<open>Enum\<close>, \<^verbatim>\<open>Type\<close> and \<^verbatim>\<open>Service\<close> are not; after the
  spec an Enum has \<^verbatim>\<open>values\<close>, a Type has \<^verbatim>\<open>fields\<close>, a Service has \<^verbatim>\<open>methods\<close>.
\<close>

definition has_prop :: "json \<Rightarrow> string \<Rightarrow> error + bool" where
  "has_prop json k =
     (if \<not> truthy json then Inr False
      else (case get_prop json k of Inl e \<Rightarrow> Inl e | Inr v \<Rightarrow> Inr (truthy v)))"

definition Namespace_testJSON :: "json \<Rightarrow> error + bool" where
  "Namespace_testJSON json =
     (if \<not> truthy json then Inr False
      else
        (case get_prop json ''fields'' of Inl e \<Rightarrow> Inl e | Inr f \<Rightarrow>
         case get_prop json ''values'' of Inl e \<Rightarrow> Inl e | Inr v \<Rightarrow>
         case get_prop json ''id'' of Inl e \<Rightarrow> Inl e | Inr i \<Rightarrow>
         case get_prop json ''oneof'' of Inl e \<Rightarrow> Inl e | Inr oo \<Rightarrow>
         case get_prop json ''methods'' of Inl e \<Rightarrow> Inl e | Inr m \<Rightarrow>
         case get_prop json ''requestType'' of Inl e \<Rightarrow> Inl e | Inr rt \<Rightarrow>
           Inr (\<not> truthy f \<and> \<not> truthy v \<and> i = JUndefined \<and> \<not> truthy oo \<and> \<not> truthy m
                \<and> rt = JUndefined)))"

fun testJSON :: "cls \<Rightarrow> json \<Rightarrow> error + bool" where
  "testJSON Enum json = has_prop json ''values''"
| "testJSON Type json = has_prop json ''fields''"
| "testJSON Service json = has_prop json ''methods''"
| "testJSON Field json = Field_testJSON json"
| "testJSON Namespace json = Namespace_testJSON json"
| "testJSON Other json = Inr False"

text \<open>
  \<^verbatim>\<open>new\<close> of a reflection object: a fresh reference with the name, no parent and no nested
  map.
\<close>

definition new_object :: "cls \<Rightarrow> string \<Rightarrow> string option \<Rightarrow> heap \<Rightarrow> nat \<times> heap" where
  "new_object c name ext h =
     (h_next h,
      h\<lparr>h_obj := (h_obj h)(h_next h := \<lparr>o_cls = c, o_name = name, o_parent = None, o_nested = None,
                                         o_extend = ext, o_resolved = False\<rparr>),
        h_next := Suc (h_next h)\<rparr>)"

text \<open>
  \<^verbatim>\<open>addJSON(json)\<close> and the constructors \<^verbatim>\<open>fromJSON\<close>, with fuel for the nesting of the JSON
  and for \<^verbatim>\<open>add\<close>; \<open>addJSON_rec\<close> is \<^verbatim>\<open>addJSON\<close> with the fuel that is left, the call
  \<^verbatim>\<open>Namespace.fromJSON\<close> makes. The inner loop asks the classes of \<^verbatim>\<open>nestedTypes\<close> in order and, at the
  first that matches, adds the object and breaks; the \<^verbatim>\<open>throw\<close> is the next statement of
  the outer loop body. \<^verbatim>\<open>Namespace.fromJSON\<close> is in the source, \<^verbatim>\<open>Field.fromJSON\<close> too.
  Modelled from the spec: \<^verbatim>\<open>fromJSON\<close> of \<^verbatim>\<open>Enum\<close>, \<^verbatim>\<open>Type\<close> and \<^verbatim>\<open>Service\<close> are not;
  they construct the object of that name. A JSON value that is truthy and no object is
  not covered.
\<close>

definition fromJSON ::
  "(heap \<Rightarrow> nat \<Rightarrow> json \<Rightarrow> (error + heap) option) \<Rightarrow> heap \<Rightarrow> cls \<Rightarrow> string \<Rightarrow> json
     \<Rightarrow> (error + nat \<times> heap) option" where
  "fromJSON addJSON_rec h c name json =
     (if c = Field then
        (case Field_fromJSON name json of
           Inl e \<Rightarrow> Some (Inl e)
         | Inr f \<Rightarrow> Some (Inr (new_object Field name (f_extend f) h)))
      else if c = Namespace then
        (case get_prop json ''nested'' of
           Inl e \<Rightarrow> Some (Inl e)
         | Inr n \<Rightarrow>
             (case addJSON_rec (snd (new_object Namespace name None h))
                     (fst (new_object Namespace name None h)) n of
                None \<Rightarrow> None
              | Some (Inl e) \<Rightarrow> Some (Inl e)
              | Some (Inr h') \<Rightarrow> Some (Inr (fst (new_object Namespace name None h), h'))))
      else Some (Inr (new_object c name None h)))"

fun classify ::
  "(heap \<Rightarrow> nat \<Rightarrow> json \<Rightarrow> (error + heap) option) \<Rightarrow> nat \<Rightarrow> heap \<Rightarrow> nat \<Rightarrow> cls list \<Rightarrow> string \<Rightarrow> json
     \<Rightarrow> (error + heap) option" where
  "classify addJSON_rec fuel h this [] key nested = Some (Inr h)"
| "classify addJSON_rec fuel h this (c # cs) key nested =
     (case testJSON c nested of
        Inl e \<Rightarrow> Some (Inl e)
      | Inr False \<Rightarrow> classify addJSON_rec fuel h this cs key nested
      | Inr True \<Rightarrow>
          (case fromJSON addJSON_rec h c key nested of
             None \<Rightarrow> None
           | Some (Inl e) \<Rightarrow> Some (Inl e)
           | Some (Inr (object, h')) \<Rightarrow> add fuel h' this (Some object)))"

definition keys_loop ::
  "(heap \<Rightarrow> nat \<Rightarrow> json \<Rightarrow> (error + heap) option) \<Rightarrow> nat \<Rightarrow> heap \<Rightarrow> nat \<Rightarrow> (string \<times> json) list
     \<Rightarrow> (error + heap) option" where
  "keys_loop addJSON_rec fuel h this kvs =
     (case kvs of
        [] \<Rightarrow> Some (Inr h)
      | kv # rest \<Rightarrow>
          (case classify addJSON_rec fuel h this nestedTypes (fst kv) (snd kv) of
             None \<Rightarrow> None
           | Some (Inl e) \<Rightarrow> Some (Inl e)
           | Some (Inr h') \<Rightarrow> Some (Inl TypeError)))"

fun addJSON :: "nat \<Rightarrow> heap \<Rightarrow> nat \<Rightarrow> json \<Rightarrow> (error + heap) option" where
  "addJSON 0 h this json = None"
| "addJSON (Suc fuel) h this json =
     (if \<not> truthy json then Some (Inr h)
      else (case json of
              JObj kvs \<Rightarrow> keys_loop (addJSON fuel) (Suc fuel) h this kvs
            | _ \<Rightarrow> Some (Inl Unmodelled)))"

text \<open>A dotted path as the array \<^verbatim>\<open>path.split('.')\<close>, and \<^verbatim>\<open>lookup\<close> of a string.\<close>

fun split_dots :: "string \<Rightarrow> string list" where
  "split_dots [] = [[]]"
| "split_dots (c # cs) =
     (if c = CHR ''.'' then [] # split_dots cs
      else (case split_dots cs of [] \<Rightarrow> [[c]] | x # xs \<Rightarrow> (c # x) # xs))"

definition lookup_string :: "heap \<Rightarrow> nat \<Rightarrow> string \<Rightarrow> bool \<Rightarrow> nat option option" where
  "lookup_string h this path parentAlreadyChecked =
     (if path = [] then Some None else lookup h this (split_dots path) parentAlreadyChecked)"

text \<open>
  Stores for the examples: the objects of a list at the references \<open>0, 1, \<dots>\<close>.
\<close>

definition blank :: robj where
  "blank = \<lparr>o_cls = Other, o_name = [], o_parent = None, o_nested = None, o_extend = None,
            o_resolved = False\<rparr>"

definition reflection :: "cls \<Rightarrow> string \<Rightarrow> nat option \<Rightarrow> (string \<times> nat) list option \<Rightarrow> robj" where
  "reflection c name p m =
     \<lparr>o_cls = c, o_name = name, o_parent = p, o_nested = m, o_extend = None, o_resolved = False\<rparr>"

definition store_of :: "robj list \<Rightarrow> heap" where
  "store_of obs = \<lparr>h_obj = (\<lambda>r. if r < length obs then obs ! r else blank), h_next = length obs\<rparr>"

text \<open>A namespace \<open>N\<close> with the enums \<open>a\<close> and \<open>b\<close>, and one with \<open>a\<close> alone.\<close>

definition two_members :: heap where
  "two_members = store_of
     [reflection Namespace ''N'' None (Some [(''a'', 1), (''b'', 2)]),
      reflection Enum ''a'' (Some 0) None,
      reflection Enum ''b'' (Some 0) None]"

definition one_member :: heap where
  "one_member = store_of
     [reflection Namespace ''N'' None (Some [(''a'', 1)]),
      reflection Enum ''a'' (Some 0) None]"

text \<open>
  A namespace \<open>N\<close> (reference 0) whose only member is the namespace \<open>n\<close> (1) with the
  enums \<open>a\<close> (2) and \<open>b\<close> (3), and a new Type named \<open>n\<close> (4); the same with the enum
  \<open>s\<close> (5) as a second member of \<open>N\<close>.
\<close>

definition reparent_store :: heap where
  "reparent_store = store_of
     [reflection Namespace ''N'' None (Some [(''n'', 1)]),
      reflection Namespace ''n'' (Some 0) (Some [(''a'', 2), (''b'', 3)]),
      reflection Enum ''a'' (Some 1) None,
      reflection Enum ''b'' (Some 1) None,
      reflection Type ''n'' None None]"

definition reparent_sibling_store :: heap where
  "reparent_sibling_store = store_of
     [reflection Namespace ''N'' None (Some [(''n'', 1), (''s'', 5)]),
      reflection Namespace ''n'' (Some 0) (Some [(''a'', 2), (''b'', 3)]),
      reflection Enum ''a'' (Some 1) None,
      reflection Enum ''b'' (Some 1) None,
      reflection Type ''n'' None None,
      reflection Enum ''s'' (Some 0) None]"

text \<open>
  An empty root namespace, and the nested JSON \<^verbatim>\<open>{"A": {"values": {"X": 1}}}\<close>: one enum.
\<close>

definition root_store :: heap where
  "root_store = store_of [reflection Namespace [] None None]"

definition enum_json :: json where
  "enum_json = JObj [(''A'', JObj [(''values'', JObj [(''X'', JNum 1)])])]"



section \<open>Properties of the writer\<close>

subsection \<open>Bits and bytes\<close>

lemma nat_and_mask: "(n::nat) AND (2 ^ k - 1) = n mod 2 ^ k"
  by (metis mask_eq_exp_minus_1 take_bit_eq_mask take_bit_eq_mod)

lemma nat_or_high: "m < 2 ^ k \<Longrightarrow> (m::nat) OR (2 ^ k * c) = m + 2 ^ k * c"
proof -
  assume "m < 2 ^ k"
  then have m: "take_bit k m = m" by (simp add: take_bit_nat_eq_self)
  have "take_bit k m AND push_bit k c = 0"
    by (auto simp: bit_eq_iff bit_simps)
  then have "take_bit k m + push_bit k c = take_bit k m OR push_bit k c"
    by (rule disjunctive_add_eq_or)
  then show ?thesis by (simp add: m push_bit_eq_mult mult.commute)
qed

lemma nat_and_127: "(n::nat) AND 127 = n mod 128"
  using nat_and_mask [of n 7] by simp

lemma nat_or_128: "m < 128 \<Longrightarrow> (m::nat) OR 128 = m + 128"
  using nat_or_high [of m 7 1] by simp

lemma byte_of_unat: "unat (x::byte) = n \<Longrightarrow> x = of_nat n"
  by auto

lemma cont_byte: "ucast (((v::32 word) AND 127) OR 128) = (of_nat (128 + unat v mod 128) :: byte)"
  by (rule byte_of_unat)
     (simp add: unsigned_ucast_eq unsigned_or_eq unsigned_and_eq nat_and_127 nat_or_128 take_bit_eq_mod mod_mod_cancel)

lemma unat_drop7: "unat (drop_bit 7 (v::32 word)) = unat v div 128"
  by (simp add: unat_drop_bit_eq drop_bit_eq_div unat_div)

lemma gt127: "(127 < (v::32 word)) = (\<not> unat v < 128)"
  by (auto simp: word_less_nat_alt)

lemma last_byte: "ucast (v::32 word) = (of_nat (unat v) :: byte)"
  by transfer simp

subsection \<open>Single stores and chunk allocation\<close>

lemma setup_step_refl: "setup_step w w"
  by (simp add: setup_step_def)

lemma setup_step_trans: "setup_step w w1 \<Longrightarrow> setup_step w1 w2 \<Longrightarrow> setup_step w w2"
  by (auto simp: setup_step_def)

lemma alloc_eq:
  "alloc n w =
     (alloc_array n, w\<lparr>emptyArray := Some (case emptyArray w of None \<Rightarrow> alloc_array 0 | Some e \<Rightarrow> e)\<rparr>)"
  by (cases "emptyArray w") (simp_all add: alloc_def Writer_setup_def)

lemma appends_refl: "winv w \<Longrightarrow> appends w [] w"
  by (simp add: appends_def setup_step_refl)

lemma appends_trans: "appends w a w1 \<Longrightarrow> appends w1 b w2 \<Longrightarrow> appends w (a @ b) w2"
  by (auto simp: appends_def intro: setup_step_trans)

lemma put_ok:
  assumes "winv w" "pos w < len w"
  shows "\<exists>w'. put v w = Inr w' \<and> appends w [v] w' \<and> len w' = len w \<and> pos w' = Suc (pos w)"
proof -
  from assms obtain b where b: "buf w = Some b" "length b = len w"
    by (cases "buf w") (auto simp: winv_def buf_ok_def)
  let ?w = "w\<lparr>buf := Some (b[pos w := v]), pos := Suc (pos w)\<rparr>"
  have "put v w = Inr ?w" by (simp add: put_def b)
  moreover have "take (Suc (pos w)) (b[pos w := v]) = take (pos w) b @ [v]"
    using assms b by (simp add: take_Suc_conv_app_nth)
  then have "appends w [v] ?w"
    using assms b by (simp add: appends_def winv_def buf_ok_def contents_def setup_step_def)
  ultimately show ?thesis by simp
qed

lemma puts_ok:
  "winv w \<Longrightarrow> pos w + length vs \<le> len w \<Longrightarrow>
   \<exists>w'. puts vs w = Inr w' \<and> appends w vs w' \<and> len w' = len w \<and> pos w' = pos w + length vs"
proof (induction vs arbitrary: w)
  case Nil
  then show ?case by (simp add: appends_refl)
next
  case (Cons v vs)
  then obtain w1 where w1: "put v w = Inr w1" "appends w [v] w1" "len w1 = len w" "pos w1 = Suc (pos w)"
    using put_ok [of w v] by auto
  then have "winv w1" "pos w1 + length vs \<le> len w1"
    using Cons.prems by (auto simp: appends_def)
  from Cons.IH [OF this] obtain w' where
    "puts vs w1 = Inr w'" "appends w1 vs w'" "len w' = len w1" "pos w' = pos w1 + length vs"
    by auto
  with w1 show ?case
    using appends_trans [of w "[v]" w1 vs w'] by simp
qed

lemma expand_ok:
  assumes "winv w"
  shows "\<exists>w'. expand n w = Inr w' \<and> appends w [] w' \<and> pos w' = 0 \<and> len w' = max n 256"
proof (cases "pos w = 0")
  case True
  then show ?thesis
    using assms
    by (auto simp: expand_def Let_def appends_def winv_def buf_ok_def contents_def alloc_eq
                   alloc_array_def BUFFER_SIZE_def setup_step_def
             split: option.splits)
next
  case False
  with assms obtain b where b: "buf w = Some b" "length b = len w"
    by (cases "buf w") (auto simp: winv_def buf_ok_def)
  with False assms show ?thesis
    by (auto simp: expand_def Let_def appends_def winv_def buf_ok_def contents_def alloc_eq
                   alloc_array_def BUFFER_SIZE_def setup_step_def
             split: option.splits)
qed

lemma ensure_ok:
  assumes "winv w"
  shows "\<exists>w'. ensure n w = Inr w' \<and> appends w [] w' \<and> pos w' + n \<le> len w'"
proof (cases "pos w + n > len w")
  case True
  then show ?thesis using expand_ok [OF assms, of n] by (auto simp: ensure_def)
next
  case False
  then show ?thesis using assms by (auto simp: ensure_def appends_refl)
qed

lemma ensure1_ok:
  assumes "winv w"
  shows "\<exists>w'. ensure1 w = Inr w' \<and> appends w [] w' \<and> pos w' < len w'"
proof (cases "pos w \<ge> len w")
  case True
  then show ?thesis using expand_ok [OF assms, of 1] by (auto simp: ensure1_def)
next
  case False
  then show ?thesis using assms by (auto simp: ensure1_def appends_refl)
qed

subsection \<open>Varints\<close>

declare varint.simps [simp del] uint32_fast.simps [simp del] uint32_slow.simps [simp del]
  long_fast.simps [simp del] long_slow.simps [simp del]

lemma varint_small: "n < 128 \<Longrightarrow> varint n = [of_nat n]"
  by (simp add: varint.simps)

lemma varint_big: "\<not> n < 128 \<Longrightarrow> varint n = of_nat (128 + n mod 128) # varint (n div 128)"
  by (subst varint.simps) simp

lemma varint_length: "0 < k \<Longrightarrow> n < 128 ^ k \<Longrightarrow> length (varint n) \<le> k"
proof (induction k arbitrary: n)
  case 0
  then show ?case by simp
next
  case (Suc k)
  show ?case
  proof (cases "n < 128")
    case True
    then show ?thesis by (simp add: varint_small)
  next
    case False
    with Suc.prems have k: "0 < k" by (cases k) auto
    from Suc.prems have "n div 128 < 128 ^ k"
      by (simp add: less_mult_imp_div_less mult.commute)
    from Suc.IH [OF k this] False show ?thesis by (simp add: varint_big)
  qed
qed

lemma varint_nonempty: "varint n \<noteq> []"
  by (cases "n < 128") (simp_all add: varint_small varint_big)

lemma varint_length_pos: "0 < length (varint n)"
  using varint_nonempty [of n] by simp

lemma varint_big_length: "\<not> n < 128 \<Longrightarrow> length (varint n) = Suc (length (varint (n div 128)))"
  by (simp add: varint_big)

lemma unat_byte: "m < 256 \<Longrightarrow> unat (of_nat m :: byte) = m"
  by (simp add: unat_of_nat)

lemma read_varint_varint: "read_varint (varint n @ rest) = Some (n, rest)"
proof (induction n rule: varint.induct)
  case (1 n)
  show ?case
  proof (cases "n < 128")
    case True
    then have "unat (of_nat n :: byte) = n" by (simp add: unat_byte)
    moreover from True have "(of_nat n :: byte) < 128"
      by (simp add: word_less_nat_alt unat_byte)
    ultimately show ?thesis using True by (simp add: varint_small)
  next
    case False
    have u: "unat (of_nat (128 + n mod 128) :: byte) = 128 + n mod 128"
      by (rule unat_byte) simp
    then have "\<not> (of_nat (128 + n mod 128) :: byte) < 128"
      by (simp add: word_less_nat_alt)
    with False u "1.IH" show ?thesis by (simp add: varint_big)
  qed
qed

lemma uint32_fast_ok:
  "winv w \<Longrightarrow> pos w + length (varint (unat v)) \<le> len w \<Longrightarrow>
   \<exists>v' w' bs. uint32_fast v w = Inr (v', w') \<and> appends w bs w' \<and>
      bs @ [ucast v'] = varint (unat v) \<and> pos w' < len w'"
proof (induction v w rule: uint32_fast.induct)
  case (1 v w)
  show ?case
  proof (cases "127 < v")
    case False
    then have "unat v < 128" by (simp add: gt127)
    with False "1.prems" show ?thesis
      by (subst uint32_fast.simps) (simp add: varint_small appends_refl)
  next
    case True
    then have big: "\<not> unat v < 128" by (simp add: gt127)
    with "1.prems" have "pos w < len w" by (simp add: varint_big)
    from put_ok [OF "1.prems"(1) this, of "ucast ((v AND 127) OR 128)"] obtain w1 where
      w1: "put (ucast ((v AND 127) OR 128)) w = Inr w1" "appends w [ucast ((v AND 127) OR 128)] w1"
          "len w1 = len w" "pos w1 = Suc (pos w)"
      by auto
    have "winv w1" using w1 by (simp add: appends_def)
    moreover have "pos w1 + length (varint (unat (drop_bit 7 v))) \<le> len w1"
      using "1.prems" big w1 by (simp add: varint_big unat_drop7)
    ultimately obtain v' w' bs where
      r: "uint32_fast (drop_bit 7 v) w1 = Inr (v', w')" "appends w1 bs w'"
         "bs @ [ucast v'] = varint (unat (drop_bit 7 v))" "pos w' < len w'"
      using "1.IH" [OF True w1(1)] by blast
    have "uint32_fast v w = Inr (v', w')"
      using True w1 r by (subst uint32_fast.simps) simp
    moreover have "appends w (ucast ((v AND 127) OR 128) # bs) w'"
      using appends_trans [OF w1(2) r(2)] by simp
    moreover have "(ucast ((v AND 127) OR 128) # bs) @ [ucast v'] = varint (unat v)"
      using r(3) big by (simp add: varint_big unat_drop7 cont_byte)
    ultimately show ?thesis using r(4) by blast
  qed
qed

lemma uint32_slow_ok:
  "winv w \<Longrightarrow>
   \<exists>v' w' bs. uint32_slow v w = Inr (v', w') \<and> appends w bs w' \<and>
      bs @ [ucast v'] = varint (unat v)"
proof (induction v w rule: uint32_slow.induct)
  case (1 v w)
  show ?case
  proof (cases "127 < v")
    case False
    then have "unat v < 128" by (simp add: gt127)
    with False "1.prems" show ?thesis
      by (subst uint32_slow.simps) (simp add: varint_small appends_refl)
  next
    case True
    then have big: "\<not> unat v < 128" by (simp add: gt127)
    from ensure1_ok [OF "1.prems"] obtain w0 where
      w0: "ensure1 w = Inr w0" "appends w [] w0" "pos w0 < len w0" by auto
    then have i0: "winv w0" by (simp add: appends_def)
    from put_ok [OF i0 w0(3), of "ucast ((v AND 127) OR 128)"] obtain w1 where
      w1: "put (ucast ((v AND 127) OR 128)) w0 = Inr w1" "appends w0 [ucast ((v AND 127) OR 128)] w1"
      by auto
    have "winv w1" using w1 by (simp add: appends_def)
    then obtain v' w' bs where
      r: "uint32_slow (drop_bit 7 v) w1 = Inr (v', w')" "appends w1 bs w'"
         "bs @ [ucast v'] = varint (unat (drop_bit 7 v))"
      using "1.IH" [OF True w0(1) w1(1)] by blast
    have "uint32_slow v w = Inr (v', w')"
      using True w0 w1 r by (subst uint32_slow.simps) simp
    moreover have "appends w (ucast ((v AND 127) OR 128) # bs) w'"
      using appends_trans [OF appends_trans [OF w0(2) w1(2)] r(2)] by simp
    moreover have "(ucast ((v AND 127) OR 128) # bs) @ [ucast v'] = varint (unat v)"
      using r(3) big by (simp add: varint_big unat_drop7 cont_byte)
    ultimately show ?thesis by blast
  qed
qed

lemma uint32w_ok:
  assumes "winv w"
  shows "\<exists>w'. uint32w v w = Inr w' \<and> appends w (varint (unat v)) w'"
proof (cases "pos w + 4 < len w")
  case True
  have "unat v < 128 ^ 5" using unsigned_less [of v, where 'a = nat] by simp
  then have "length (varint (unat v)) \<le> 5" by (intro varint_length) simp_all
  with True have "pos w + length (varint (unat v)) \<le> len w" by simp
  from uint32_fast_ok [OF assms this] obtain v' w1 bs where
    r: "uint32_fast v w = Inr (v', w1)" "appends w bs w1" "bs @ [ucast v'] = varint (unat v)"
       "pos w1 < len w1" by blast
  then have "winv w1" by (simp add: appends_def)
  from put_ok [OF this r(4), of "ucast v'"] obtain w' where
    w': "put (ucast v') w1 = Inr w'" "appends w1 [ucast v'] w'" by auto
  have "uint32w v w = Inr w'" using True r w' by (simp add: uint32w_def)
  moreover have "appends w (varint (unat v)) w'"
    using appends_trans [OF r(2) w'(2)] r(3) by simp
  ultimately show ?thesis by blast
next
  case False
  from uint32_slow_ok [OF assms] obtain v' w1 bs where
    r: "uint32_slow v w = Inr (v', w1)" "appends w bs w1" "bs @ [ucast v'] = varint (unat v)"
    by blast
  then have "winv w1" by (simp add: appends_def)
  from ensure1_ok [OF this] obtain w2 where
    w2: "ensure1 w1 = Inr w2" "appends w1 [] w2" "pos w2 < len w2" by auto
  then have "winv w2" by (simp add: appends_def)
  from put_ok [OF this w2(3), of "ucast v'"] obtain w' where
    w': "put (ucast v') w2 = Inr w'" "appends w2 [ucast v'] w'" by auto
  have "uint32w v w = Inr w'" using False r w2 w' by (simp add: uint32w_def)
  moreover have "appends w (varint (unat v)) w'"
    using appends_trans [OF appends_trans [OF r(2) w2(2)] w'(2)] r(3) by simp
  ultimately show ?thesis by blast
qed

subsection \<open>The two halves of a 64-bit value\<close>

lemma long_cond: "(0 < hi \<or> 127 < lo) = (\<not> long_nat (lo, hi) < 128)"
proof -
  have "(0 < hi) = (unat hi \<noteq> 0)" by (simp add: word_less_nat_alt)
  then show ?thesis by (auto simp: long_nat_def gt127)
qed

lemma split128: "(h * (128 * c) + l) div 128 = (h div 128) * (128 * c) + (l div 128 + c * (h mod 128))"
  for h c l :: nat
proof -
  have "h * (128 * c) + l = l + (h * c) * 128" by simp
  then have "(h * (128 * c) + l) div 128 = l div 128 + h * c" by (simp only: div_mult_self1)
  moreover have "h * c = (h div 128) * (128 * c) + c * (h mod 128)"
  proof -
    have "h * c = (128 * (h div 128) + h mod 128) * c" by simp
    then show ?thesis by (simp only: algebra_simps)
  qed
  ultimately show ?thesis by simp
qed

lemma unat_push25: "unat (push_bit 25 (hi :: 32 word)) = 2 ^ 25 * (unat hi mod 128)"
proof -
  have "unat (push_bit 25 hi) = take_bit 32 (push_bit 25 (unat hi))"
    by (rule unsigned_push_bit_eq [where 'a = nat and 'b = 32, simplified])
  also have "\<dots> = (2 ^ 25 * unat hi) mod (2 ^ 25 * 128)"
    by (simp add: take_bit_eq_mod push_bit_eq_mult mult.commute)
  also have "\<dots> = 2 ^ 25 * (unat hi mod 128)" by (simp only: mult_mod_right)
  finally show ?thesis .
qed

lemma long_step:
  "long_nat ((drop_bit 7 lo) OR (push_bit 25 hi), drop_bit 7 hi) = long_nat (lo, hi) div 128"
proof -
  have lt: "unat lo div 128 < 2 ^ 25"
    using unsigned_less [of lo, where 'a = nat] by simp
  have "unat ((drop_bit 7 lo) OR (push_bit 25 hi)) = unat lo div 128 + 2 ^ 25 * (unat hi mod 128)"
    using nat_or_high [OF lt, of "unat hi mod 128"]
    by (simp only: unsigned_or_eq unat_drop7 unat_push25)
  then show ?thesis
    using split128 [of "unat hi" "2 ^ 25" "unat lo"]
    by (simp add: long_nat_def unat_drop7)
qed

lemma long_byte: "128 + long_nat (lo, hi) mod 128 = 128 + unat lo mod 128"
proof -
  have "unat hi * 2 ^ 32 = (unat hi * 2 ^ 25) * 128" by simp
  then have "(unat hi * 2 ^ 32 + unat lo) mod 128 = unat lo mod 128"
    by (simp only: mod_mult_self3)
  then show ?thesis by (simp add: long_nat_def)
qed

subsection \<open>Finishing\<close>

lemma finish_len_eq: "finish_len bs n = n + length (concat bs)"
  by (induction bs arbitrary: n) auto

lemma finish_copy_ok:
  "p + length (concat bs) \<le> length c \<Longrightarrow>
   finish_copy bs c p =
     Inr (take p c @ concat bs @ drop (p + length (concat bs)) c, p + length (concat bs))"
proof (induction bs arbitrary: c p)
  case Nil
  then show ?case by simp
next
  case (Cons sub bs)
  let ?c = "take p c @ sub @ drop (p + length sub) c"
  from Cons.prems have s: "set_at c sub p = Inr ?c" by (simp add: set_at_def)
  from Cons.prems have l: "length ?c = length c" by simp
  from Cons.prems have "p + length sub + length (concat bs) \<le> length ?c" by (simp add: l)
  from Cons.IH [OF this] Cons.prems show ?case
    by (simp add: s ac_simps)
qed

lemma emptyArray_reset: "emptyArray (reset w) = emptyArray w"
  by (simp add: reset_def apply_state_def)

lemma finish_ok:
  assumes "winv w"
  shows "\<exists>e. finish w = Inr (case buf w of None \<Rightarrow> emptyArray w | Some b \<Rightarrow> Some (contents w),
                             (reset w)\<lparr>emptyArray := e\<rparr>) \<and>
             (e = emptyArray w \<or> (emptyArray w = None \<and> e = Some (alloc_array 0))) \<and>
             (buf w = None \<longrightarrow> e = emptyArray w)"
proof (cases "buf w")
  case None
  have "(reset w)\<lparr>emptyArray := emptyArray w\<rparr> = reset w"
    using emptyArray_reset [of w] by (cases "reset w") simp
  with None have "finish w = Inr (case buf w of None \<Rightarrow> emptyArray w | Some b \<Rightarrow> Some (contents w),
                                  (reset w)\<lparr>emptyArray := emptyArray w\<rparr>)"
    by (simp add: finish_def Let_def emptyArray_reset)
  then show ?thesis by blast
next
  case (Some b)
  with assms have b: "length b = len w" "pos w \<le> len w"
    by (auto simp: winv_def buf_ok_def)
  define b1 where "b1 = (if pos w < len w then take (pos w) b else b)"
  have b1: "b1 = take (pos w) b" using b by (simp add: b1_def)
  then have lb1: "length b1 = pos w" using b by simp
  show ?thesis
  proof (cases "bufs w = []")
    case True
    have "(reset w)\<lparr>emptyArray := emptyArray w\<rparr> = reset w"
      using emptyArray_reset [of w] by (cases "reset w") simp
    with True have "finish w = Inr (case buf w of None \<Rightarrow> emptyArray w | Some b \<Rightarrow> Some (contents w),
                                    (reset w)\<lparr>emptyArray := emptyArray w\<rparr>)"
      using Some b1 by (simp add: finish_def Let_def contents_def b1_def)
    with Some show ?thesis by blast
  next
    case False
    define c0 where "c0 = alloc_array (finish_len (bufs w) (pos w))"
    define e where "e = Some (case emptyArray w of None \<Rightarrow> alloc_array 0 | Some x \<Rightarrow> x)"
    have al: "alloc (finish_len (bufs w) (pos w)) (reset w) = (c0, (reset w)\<lparr>emptyArray := e\<rparr>)"
      by (simp add: alloc_eq c0_def e_def emptyArray_reset)
    have e: "e = emptyArray w \<or> (emptyArray w = None \<and> e = Some (alloc_array 0))"
      by (cases "emptyArray w") (simp_all add: e_def)
    have lc0: "length c0 = pos w + length (concat (bufs w))"
      by (simp add: c0_def alloc_array_def finish_len_eq)
    then have "0 + length (concat (bufs w)) \<le> length c0" by simp
    from finish_copy_ok [OF this]
    have fc: "finish_copy (bufs w) c0 0 =
        Inr (concat (bufs w) @ drop (length (concat (bufs w))) c0, length (concat (bufs w)))"
      by simp
    define c1 where "c1 = concat (bufs w) @ drop (length (concat (bufs w))) c0"
    have lc1: "length c1 = pos w + length (concat (bufs w))"
      by (simp add: c1_def lc0)
    have "set_at c1 b1 (length (concat (bufs w))) = Inr (concat (bufs w) @ b1)"
      by (simp add: set_at_def lc1 lb1) (simp add: c1_def)
    then have "finish w = Inr (Some (contents w), (reset w)\<lparr>emptyArray := e\<rparr>)"
      using Some False fc al
      by (simp add: finish_def Let_def contents_def b1_def [symmetric]
                    c1_def [symmetric] b1 [symmetric])
    with Some e show ?thesis by auto
  qed
qed

lemma buf_of_contents: "winv w \<Longrightarrow> contents w \<noteq> [] \<Longrightarrow> buf w \<noteq> None"
  by (cases "buf w") (simp_all add: winv_def buf_ok_def contents_def)

lemma finish_written:
  assumes "winv w" and "contents w \<noteq> []"
  shows "\<exists>e. finish w = Inr (Some (contents w), (reset w)\<lparr>emptyArray := e\<rparr>) \<and>
             (e = emptyArray w \<or> (emptyArray w = None \<and> e = Some (alloc_array 0)))"
  using finish_ok [OF assms(1)] buf_of_contents [OF assms] by auto

lemma appends_contents: "appends w bs w' \<Longrightarrow> contents w' = contents w @ bs"
  by (simp add: appends_def)

lemma winv_Writer_in: "winv (Writer_in e)"
  by (simp add: winv_def Writer_in_def buf_ok_def)

lemma contents_Writer_in: "contents (Writer_in e) = []"
  by (simp add: contents_def Writer_in_def)

lemma winv_Writer: "winv Writer"
  by (simp add: Writer_def winv_Writer_in)

lemma contents_Writer: "contents Writer = []"
  by (simp add: Writer_def contents_Writer_in)

text \<open>
  Claim C3. For an integer \<open>0 \<le> v < 2 ^ 32\<close>, \<^verbatim>\<open>uint32(v)\<close> on a writer that satisfies the
  invariant succeeds and appends the base-128 varint of \<open>v\<close> to the bytes the writer
  holds; reading that varint back gives \<open>v\<close> and the bytes after it; and
  \<^verbatim>\<open>new Writer().uint32(150).finish()\<close> is \<^verbatim>\<open>[0x96, 0x01]\<close>.
\<close>

theorem uint32_varint_roundtrip:
  assumes "0 \<le> v" and "v < 2 ^ 32" and "winv w"
  shows "(\<exists>w'. uint32 v w = Inr w' \<and> winv w' \<and> stack w' = stack w \<and>
            contents w' = contents w @ varint (nat v)) \<and>
         read_varint (varint (nat v) @ rest) = Some (nat v, rest) \<and>
         (\<exists>w' w''. uint32 150 Writer = Inr w' \<and> finish w' = Inr (Some [0x96, 0x01], w''))"
proof -
  have u: "unat (word_of_int v :: 32 word) = nat v"
    using assms(1,2) by (simp add: unat_eq_nat_uint word_of_int_inverse take_bit_int_eq_self uint_word_of_int)
  from uint32w_ok [OF assms(3), of "word_of_int v"]
  have 1: "\<exists>w'. uint32 v w = Inr w' \<and> winv w' \<and> stack w' = stack w \<and>
            contents w' = contents w @ varint (nat v)"
    by (auto simp: uint32_def appends_def u)
  from uint32w_ok [OF winv_Writer, of "150"] obtain w' where
    w': "uint32 150 Writer = Inr w'" "appends Writer (varint 150) w'"
    by (auto simp: uint32_def)
  have "varint 150 = [0x96, 0x01]"
    by (simp add: varint.simps)
  with w' have "\<exists>w''. finish w' = Inr (Some [0x96, 0x01], w'')"
    using finish_written [of w'] by (auto simp: appends_def contents_Writer)
  with w' 1 show ?thesis by (auto simp: read_varint_varint)
qed

theorem uint32_varint_roundtrip_witness:
  "(\<exists>w'. uint32 300 Writer = Inr w' \<and> winv w' \<and> stack w' = stack Writer \<and>
            contents w' = contents Writer @ varint (nat 300)) \<and>
         read_varint (varint (nat 300) @ [7]) = Some (nat 300, [7]) \<and>
         (\<exists>w' w''. uint32 150 Writer = Inr w' \<and> finish w' = Inr (Some [0x96, 0x01], w''))"
  using uint32_varint_roundtrip [of 300 Writer "[7]"] winv_Writer by simp

subsection \<open>The writing methods append their reference bytes\<close>

declare string_blen.simps [simp del] string_write.simps [simp del] string_bytes.simps [simp del]

lemma appends_winv: "appends w bs w' \<Longrightarrow> winv w'"
  by (simp add: appends_def)

lemma ensure_puts_ok:
  assumes "winv w" and "length vs \<le> n"
  shows "\<exists>w1 w'. ensure n w = Inr w1 \<and> puts vs w1 = Inr w' \<and> appends w vs w'"
proof -
  from ensure_ok [OF assms(1), of n] obtain w1 where
    w1: "ensure n w = Inr w1" "appends w [] w1" "pos w1 + n \<le> len w1" by auto
  then have "winv w1" "pos w1 + length vs \<le> len w1" using assms(2) by (auto simp: appends_def)
  from puts_ok [OF this] obtain w' where "puts vs w1 = Inr w'" "appends w1 vs w'" by auto
  with w1 show ?thesis using appends_trans [of w "[]" w1 vs w'] by auto
qed

lemma ensure1_put_ok:
  assumes "winv w"
  shows "\<exists>w1 w'. ensure1 w = Inr w1 \<and> put v w1 = Inr w' \<and> appends w [v] w'"
proof -
  from ensure1_ok [OF assms] obtain w1 where
    w1: "ensure1 w = Inr w1" "appends w [] w1" "pos w1 < len w1" by auto
  then have "winv w1" by (simp add: appends_def)
  from put_ok [OF this w1(3), of v] obtain w' where "put v w1 = Inr w'" "appends w1 [v] w'" by auto
  with w1 show ?thesis using appends_trans [of w "[]" w1 "[v]" w'] by auto
qed

lemma tag_ok: "winv w \<Longrightarrow> \<exists>w'. tag i t w = Inr w' \<and> appends w [tag_byte i t] w'"
proof -
  assume "winv w"
  from ensure_ok [OF this, of 1] obtain w1 where
    w1: "ensure 1 w = Inr w1" "appends w [] w1" "pos w1 + 1 \<le> len w1" by auto
  then have "winv w1" "pos w1 < len w1" by (auto simp: appends_def)
  from put_ok [OF this, of "tag_byte i t"] obtain w' where
    "put (tag_byte i t) w1 = Inr w'" "appends w1 [tag_byte i t] w'" by auto
  with w1 show ?thesis
    using appends_trans [of w "[]" w1 "[tag_byte i t]" w'] by (auto simp: tag_def)
qed

lemma bool_ok: "winv w \<Longrightarrow> \<exists>w'. bool v w = Inr w' \<and> appends w [if v then 1 else 0] w'"
  using ensure1_put_ok [of w "if v then 1 else 0"]
  by (auto simp: bool_def)

lemma fixed32w_ok: "winv w \<Longrightarrow> \<exists>w'. fixed32w v w = Inr w' \<and> appends w (fixed32_bytes v) w'"
  using ensure_puts_ok [of w "fixed32_bytes v" 4]
  by (auto simp: fixed32w_def fixed32_bytes_def)

lemma writeLongFixed_ok:
  "winv w \<Longrightarrow> \<exists>w'. writeLongFixed lo hi w = Inr w' \<and> appends w (fixed64_bytes (lo, hi)) w'"
  using ensure_puts_ok [of w "fixed64_bytes (lo, hi)" 8]
  by (auto simp: writeLongFixed_def fixed64_bytes_def)

lemma long_fast_ok:
  "winv w \<Longrightarrow> pos w + length (varint (long_nat (lo, hi))) \<le> len w \<Longrightarrow>
   \<exists>lo' w' bs. long_fast lo hi w = Inr (lo', w') \<and> appends w bs w' \<and>
      bs @ [ucast lo'] = varint (long_nat (lo, hi)) \<and> pos w' < len w'"
proof (induction lo hi w rule: long_fast.induct)
  case (1 lo hi w)
  show ?case
  proof (cases "0 < hi \<or> 127 < lo")
    case False
    then have small: "long_nat (lo, hi) < 128" using long_cond [of hi lo] by blast
    from False have "hi = 0" by (simp add: word_neq_0_conv [symmetric])
    then have "long_nat (lo, hi) = unat lo" by (simp add: long_nat_def)
    with False small "1.prems" show ?thesis
      by (subst long_fast.simps) (simp add: varint_small appends_refl)
  next
    case True
    then have big: "\<not> long_nat (lo, hi) < 128" using long_cond [of hi lo] by blast
    let ?b = "ucast ((lo AND 127) OR 128) :: byte"
    let ?lo = "(drop_bit 7 lo) OR (push_bit 25 hi)"
    let ?hi = "drop_bit 7 hi"
    from big "1.prems" have "pos w < len w" by (simp add: varint_big)
    from put_ok [OF "1.prems"(1) this, of ?b] obtain w1 where
      w1: "put ?b w = Inr w1" "appends w [?b] w1" "len w1 = len w" "pos w1 = Suc (pos w)"
      by auto
    have "winv w1" using w1 by (simp add: appends_def)
    moreover have "pos w1 + length (varint (long_nat (?lo, ?hi))) \<le> len w1"
      using "1.prems" big w1 by (simp add: varint_big long_step)
    ultimately obtain lo' w' bs where
      r: "long_fast ?lo ?hi w1 = Inr (lo', w')" "appends w1 bs w'"
         "bs @ [ucast lo'] = varint (long_nat (?lo, ?hi))" "pos w' < len w'"
      using "1.IH" [OF True w1(1)] by blast
    have "long_fast lo hi w = Inr (lo', w')"
      using True w1 r by (subst long_fast.simps) simp
    moreover have "appends w (?b # bs) w'"
      using appends_trans [OF w1(2) r(2)] by simp
    moreover have "(?b # bs) @ [ucast lo'] = varint (long_nat (lo, hi))"
      using r(3) big by (simp add: varint_big long_step cont_byte long_byte)
    ultimately show ?thesis using r(4) by blast
  qed
qed

lemma long_slow_ok:
  "winv w \<Longrightarrow>
   \<exists>lo' w' bs. long_slow lo hi w = Inr (lo', w') \<and> appends w bs w' \<and>
      bs @ [ucast lo'] = varint (long_nat (lo, hi))"
proof (induction lo hi w rule: long_slow.induct)
  case (1 lo hi w)
  show ?case
  proof (cases "0 < hi \<or> 127 < lo")
    case False
    then have small: "long_nat (lo, hi) < 128" using long_cond [of hi lo] by blast
    from False have "hi = 0" by (simp add: word_neq_0_conv [symmetric])
    then have "long_nat (lo, hi) = unat lo" by (simp add: long_nat_def)
    with False small "1.prems" show ?thesis
      by (subst long_slow.simps) (simp add: varint_small appends_refl)
  next
    case True
    then have big: "\<not> long_nat (lo, hi) < 128" using long_cond [of hi lo] by blast
    let ?b = "ucast ((lo AND 127) OR 128) :: byte"
    let ?lo = "(drop_bit 7 lo) OR (push_bit 25 hi)"
    let ?hi = "drop_bit 7 hi"
    from ensure1_put_ok [OF "1.prems", of ?b] obtain w0 w1 where
      w1: "ensure1 w = Inr w0" "put ?b w0 = Inr w1" "appends w [?b] w1" by auto
    have "winv w1" using w1 by (simp add: appends_def)
    then obtain lo' w' bs where
      r: "long_slow ?lo ?hi w1 = Inr (lo', w')" "appends w1 bs w'"
         "bs @ [ucast lo'] = varint (long_nat (?lo, ?hi))"
      using "1.IH" [OF True w1(1) w1(2)] by blast
    have "long_slow lo hi w = Inr (lo', w')"
      using True w1 r by (subst long_slow.simps) simp
    moreover have "appends w (?b # bs) w'"
      using appends_trans [OF w1(3) r(2)] by simp
    moreover have "(?b # bs) @ [ucast lo'] = varint (long_nat (lo, hi))"
      using r(3) big by (simp add: varint_big long_step cont_byte long_byte)
    ultimately show ?thesis by blast
  qed
qed

lemma long_nat_less: "long_nat (lo, hi) < 128 ^ 10"
proof -
  have "unat lo < 2 ^ 32" "unat hi < 2 ^ 32"
    using unsigned_less [of lo, where 'a = nat] unsigned_less [of hi, where 'a = nat] by simp_all
  then have "unat hi * 2 ^ 32 + unat lo < 2 ^ 64" by simp
  moreover have "(2::nat) ^ 64 \<le> 128 ^ 10" by simp
  ultimately have "unat hi * 2 ^ 32 + unat lo < 128 ^ 10" by (rule less_le_trans)
  then show ?thesis by (simp only: long_nat_def fst_conv snd_conv)
qed

lemma writeLongVarint_ok:
  assumes "winv w"
  shows "\<exists>w'. writeLongVarint lo hi w = Inr w' \<and> appends w (varint (long_nat (lo, hi))) w'"
proof (cases "pos w + 9 < len w")
  case True
  have "length (varint (long_nat (lo, hi))) \<le> 10"
    using varint_length [of 10, OF _ long_nat_less [of lo hi]] by simp
  with True have "pos w + length (varint (long_nat (lo, hi))) \<le> len w" by simp
  from long_fast_ok [OF assms this] obtain v' w1 bs where
    r: "long_fast lo hi w = Inr (v', w1)" "appends w bs w1"
       "bs @ [ucast v'] = varint (long_nat (lo, hi))" "pos w1 < len w1" by blast
  then have "winv w1" by (simp add: appends_def)
  from put_ok [OF this r(4), of "ucast v'"] obtain w' where
    w': "put (ucast v') w1 = Inr w'" "appends w1 [ucast v'] w'" by auto
  have "writeLongVarint lo hi w = Inr w'" using True r w' by (simp add: writeLongVarint_def)
  moreover have "appends w (varint (long_nat (lo, hi))) w'"
    using appends_trans [OF r(2) w'(2)] r(3) by simp
  ultimately show ?thesis by blast
next
  case False
  from long_slow_ok [OF assms] obtain v' w1 bs where
    r: "long_slow lo hi w = Inr (v', w1)" "appends w bs w1"
       "bs @ [ucast v'] = varint (long_nat (lo, hi))"
    by blast
  then have "winv w1" by (simp add: appends_def)
  from ensure1_put_ok [OF this, of "ucast v'"] obtain w2 w' where
    w': "ensure1 w1 = Inr w2" "put (ucast v') w2 = Inr w'" "appends w1 [ucast v'] w'" by auto
  have "writeLongVarint lo hi w = Inr w'" using False r w' by (simp add: writeLongVarint_def)
  moreover have "appends w (varint (long_nat (lo, hi))) w'"
    using appends_trans [OF r(2) w'(3)] r(3) by simp
  ultimately show ?thesis by blast
qed

lemma length_store: "length (store b p vs) = length b"
  by (induction vs arbitrary: b p) auto

lemma take_store:
  "p + length vs \<le> length b \<Longrightarrow> take (p + length vs) (store b p vs) = take p b @ vs"
proof (induction vs arbitrary: b p)
  case Nil
  then show ?case by simp
next
  case (Cons v vs)
  from Cons.prems have "Suc p + length vs \<le> length (b[p := v])" by simp
  from Cons.IH [OF this] Cons.prems show ?case
    by (simp add: take_Suc_conv_app_nth)
qed

lemma length_le_bytes: "length (le_bytes n x) = n"
  by (induction n arbitrary: x) auto

lemma ensure_buf:
  assumes "winv w" and "0 < n"
  shows "\<exists>w1 b. ensure n w = Inr w1 \<and> appends w [] w1 \<and> buf w1 = Some b \<and>
           length b = len w1 \<and> pos w1 + n \<le> len w1"
proof -
  from ensure_ok [OF assms(1), of n] obtain w1 where
    w1: "ensure n w = Inr w1" "appends w [] w1" "pos w1 + n \<le> len w1" by auto
  with assms(2) have "len w1 \<noteq> 0" by simp
  with w1 obtain b where "buf w1 = Some b" "length b = len w1"
    by (cases "buf w1") (auto simp: appends_def winv_def buf_ok_def)
  with w1 show ?thesis by blast
qed

lemma replace_tail:
  assumes "appends w [] w1" and "buf w1 = Some b" and "length b = len w1"
    and "pos w1 + length vs \<le> len w1" and "length b' = length b"
    and "take (pos w1 + length vs) b' = take (pos w1) b @ vs"
  shows "appends w vs (w1\<lparr>buf := Some b', pos := pos w1 + length vs\<rparr>)"
  using assms by (auto simp: appends_def winv_def buf_ok_def contents_def setup_step_def)

lemma float_ok: "winv w \<Longrightarrow> \<exists>w'. float v w = Inr w' \<and> appends w (le_bytes 4 (ucast v)) w'"
proof -
  assume "winv w"
  from ensure_buf [OF this, of 4] obtain w1 b where
    w1: "ensure 4 w = Inr w1" "appends w [] w1" "buf w1 = Some b" "length b = len w1"
        "pos w1 + 4 \<le> len w1" by auto
  let ?vs = "le_bytes 4 (ucast v)"
  have l: "length ?vs = 4" by (rule length_le_bytes)
  have "take (pos w1 + length ?vs) (store b (pos w1) ?vs) = take (pos w1) b @ ?vs"
    using w1 by (intro take_store) (simp add: l)
  with w1 have "appends w ?vs (w1\<lparr>buf := Some (store b (pos w1) ?vs), pos := pos w1 + length ?vs\<rparr>)"
    by (intro replace_tail [where b = b]) (simp_all add: l length_store)
  with w1 show ?thesis by (simp add: float_def ieee754_write_def l)
qed

lemma double_ok: "winv w \<Longrightarrow> \<exists>w'. double v w = Inr w' \<and> appends w (le_bytes 8 v) w'"
proof -
  assume "winv w"
  from ensure_buf [OF this, of 8] obtain w1 b where
    w1: "ensure 8 w = Inr w1" "appends w [] w1" "buf w1 = Some b" "length b = len w1"
        "pos w1 + 8 \<le> len w1" by auto
  let ?vs = "le_bytes 8 v"
  have l: "length ?vs = 8" by (rule length_le_bytes)
  have "take (pos w1 + length ?vs) (store b (pos w1) ?vs) = take (pos w1) b @ ?vs"
    using w1 by (intro take_store) (simp add: l)
  with w1 have "appends w ?vs (w1\<lparr>buf := Some (store b (pos w1) ?vs), pos := pos w1 + length ?vs\<rparr>)"
    by (intro replace_tail [where b = b]) (simp_all add: l length_store)
  with w1 show ?thesis by (simp add: double_def ieee754_write_def l)
qed

lemma unat_word_of_nat32: "unat (word_of_int (int n) :: 32 word) = n mod 2 ^ 32"
  by (simp add: unat_of_nat)

lemma uint32_ok:
  "winv w \<Longrightarrow> \<exists>w'. uint32 v w = Inr w' \<and> appends w (varint (unat (word_of_int v :: 32 word))) w'"
  using uint32w_ok [of w "word_of_int v"] by (simp add: uint32_def)

lemma bytes_ok:
  assumes "winv w" and "length v < 2 ^ 32"
  shows "\<exists>w'. bytes v w = Inr w' \<and> appends w (varint (length v) @ v) w'"
proof (cases "v = []")
  case True
  from ensure1_put_ok [OF assms(1), of 0] obtain w1 w' where
    "ensure1 w = Inr w1" "put 0 w1 = Inr w'" "appends w [0] w'" by auto
  with True show ?thesis by (auto simp: bytes_def varint_small)
next
  case False
  with assms(2) have n: "length v mod 2 ^ 32 = length v" "length v \<noteq> 0" by simp_all
  from uint32_ok [OF assms(1), of "int (length v)"] obtain w1 where
    w1: "uint32 (int (length v)) w = Inr w1" "appends w (varint (length v)) w1"
    using n by (auto simp: unat_word_of_nat32 simp del: of_int_of_nat_eq)
  then have "winv w1" by (simp add: appends_def)
  from ensure_buf [OF this, of "length v"] n obtain w2 b where
    w2: "ensure (length v) w1 = Inr w2" "appends w1 [] w2" "buf w2 = Some b" "length b = len w2"
        "pos w2 + length v \<le> len w2" by auto
  let ?b = "take (pos w2) b @ v @ drop (pos w2 + length v) b"
  have s: "set_at b v (pos w2) = Inr ?b" using w2 by (simp add: set_at_def)
  have "appends w1 v (w2\<lparr>buf := Some ?b, pos := pos w2 + length v\<rparr>)"
    using w2 by (intro replace_tail [where b = b]) simp_all
  from appends_trans [OF w1(2) this] w1 w2 s n show ?thesis by (simp add: bytes_def Let_def)
qed

lemma string_blen_eq: "string_blen s acc = acc + length (string_bytes s)"
proof (induction s acc rule: string_blen.induct)
  case (1 blen)
  then show ?case by (simp add: string_blen.simps string_bytes.simps)
next
  case (2 u us blen)
  then show ?case
    by (subst string_blen.simps, subst string_bytes.simps) (simp add: Let_def)
qed

lemma string_write_ok:
  "winv w \<Longrightarrow> pos w + length (string_bytes s) \<le> len w \<Longrightarrow>
   \<exists>w'. string_write s w = Inr w' \<and> appends w (string_bytes s) w'"
proof (induction s w rule: string_write.induct)
  case (1 w)
  then show ?case by (simp add: string_write.simps string_bytes.simps appends_refl)
next
  case (2 u us w)
  define c1 where "c1 = (ucast u :: 32 word)"
  define hd_bytes where "hd_bytes =
     (if c1 < 128 then [ucast c1 :: byte]
      else if c1 < 2048 then [ucast ((signed_drop_bit 6 c1) OR 192), ucast ((c1 AND 63) OR 128)]
      else if surrogate_pair c1 us then
        (let c = join_pair c1 (ucast (hd us)) in
         [ucast ((signed_drop_bit 18 c) OR 240),
          ucast (((signed_drop_bit 12 c) AND 63) OR 128),
          ucast (((signed_drop_bit 6 c) AND 63) OR 128),
          ucast ((c AND 63) OR 128)])
      else
        [ucast ((signed_drop_bit 12 c1) OR 224),
         ucast (((signed_drop_bit 6 c1) AND 63) OR 128),
         ucast ((c1 AND 63) OR 128)])"
  define rest where "rest = (if \<not> c1 < 128 \<and> \<not> c1 < 2048 \<and> surrogate_pair c1 us then tl us else us)"
  have sb: "string_bytes (u # us) = hd_bytes @ string_bytes rest"
    by (subst string_bytes.simps) (simp add: Let_def c1_def hd_bytes_def rest_def)
  with "2.prems" have "pos w + length hd_bytes \<le> len w" by simp
  from puts_ok [OF "2.prems"(1) this] obtain w1 where
    w1: "puts hd_bytes w = Inr w1" "appends w hd_bytes w1" "len w1 = len w"
        "pos w1 = pos w + length hd_bytes" by auto
  have sw: "string_write (u # us) w = string_write rest w1"
    using w1(1)
    by (subst string_write.simps)
       (auto simp: Let_def c1_def hd_bytes_def rest_def split: sum.splits if_splits)
  have i1: "winv w1" using w1 by (simp add: appends_def)
  have r1: "pos w1 + length (string_bytes rest) \<le> len w1"
    using "2.prems"(2) w1 sb by simp
  have "\<exists>w'. string_write rest w1 = Inr w' \<and> appends w1 (string_bytes rest) w'"
  proof (cases "c1 < 128")
    case True
    then have p: "put (ucast c1) w = Inr w1" using w1(1) by (simp add: hd_bytes_def split: sum.splits)
    from True have "rest = us" by (simp add: rest_def)
    with "2.IH"(1) [OF c1_def True p i1] r1 show ?thesis by simp
  next
    case n1: False
    show ?thesis
    proof (cases "c1 < 2048")
      case True
      with n1 have p: "puts [ucast ((signed_drop_bit 6 c1) OR 192), ucast ((c1 AND 63) OR 128)] w = Inr w1"
        using w1(1) by (simp add: hd_bytes_def)
      from True have "rest = us" by (simp add: rest_def)
      with "2.IH"(2) [OF c1_def n1 True p i1] r1 show ?thesis by simp
    next
      case n2: False
      show ?thesis
      proof (cases "surrogate_pair c1 us")
        case True
        define c where "c = join_pair c1 (ucast (hd us))"
        with n1 n2 True have p: "puts [ucast ((signed_drop_bit 18 c) OR 240),
          ucast (((signed_drop_bit 12 c) AND 63) OR 128),
          ucast (((signed_drop_bit 6 c) AND 63) OR 128),
          ucast ((c AND 63) OR 128)] w = Inr w1"
          using w1(1) by (simp add: hd_bytes_def Let_def)
        from n1 n2 True have "rest = tl us" by (simp add: rest_def)
        with "2.IH"(3) [OF c1_def n1 n2 True c_def p i1] r1 show ?thesis by simp
      next
        case False
        with n1 n2 have p: "puts [ucast ((signed_drop_bit 12 c1) OR 224),
         ucast (((signed_drop_bit 6 c1) AND 63) OR 128),
         ucast ((c1 AND 63) OR 128)] w = Inr w1"
          using w1(1) by (simp add: hd_bytes_def)
        from False have "rest = us" by (simp add: rest_def)
        with "2.IH"(4) [OF c1_def n1 n2 False p i1] r1 show ?thesis by simp
      qed
    qed
  qed
  then obtain w' where "string_write rest w1 = Inr w'" "appends w1 (string_bytes rest) w'" by blast
  with sw sb appends_trans [OF w1(2) this(2)] show ?case by simp
qed

lemma string_ok:
  assumes "winv w"
  shows "\<exists>w'. string v w = Inr w' \<and> appends w (wop_bytes (W_string v)) w'"
proof (cases "length v mod 2 ^ 32 = 0")
  case True
  from ensure1_put_ok [OF assms, of 0] obtain w1 w' where
    "ensure1 w = Inr w1" "put 0 w1 = Inr w'" "appends w [0] w'" by auto
  with True show ?thesis
    by (auto simp: string_def js_length_def varint_small string_blen.simps string_bytes.simps)
next
  case False
  define s where "s = take (length v mod 2 ^ 32) v"
  define blen where "blen = string_blen s 0"
  have bl: "blen = length (string_bytes s)" by (simp add: blen_def string_blen_eq)
  from uint32_ok [OF assms, of "int blen"] obtain w1 where
    w1: "uint32 (int blen) w = Inr w1" "appends w (varint (blen mod 2 ^ 32)) w1"
    by (auto simp: unat_word_of_nat32 simp del: of_int_of_nat_eq)
  then have "winv w1" by (simp add: appends_def)
  from ensure_ok [OF this, of blen] obtain w2 where
    w2: "ensure blen w1 = Inr w2" "appends w1 [] w2" "pos w2 + blen \<le> len w2" by auto
  then have "winv w2" "pos w2 + length (string_bytes s) \<le> len w2"
    by (auto simp: appends_def bl)
  from string_write_ok [OF this] obtain w' where
    w': "string_write s w2 = Inr w'" "appends w2 (string_bytes s) w'" by auto
  have a: "appends w (varint (blen mod 2 ^ 32) @ string_bytes s) w'"
    using appends_trans [OF w1(2) appends_trans [OF w2(2) w'(2)]] by simp
  show ?thesis
    unfolding string_def Let_def js_length_def wop_bytes.simps s_def [symmetric] blen_def [symmetric]
    using False w1(1) w2(1) w'(1) a by simp
qed

lemma write_op_ok:
  assumes "winv w" and "wop_ok x"
  shows "\<exists>w'. write_op x w = Inr w' \<and> appends w (wop_bytes x) w'"
proof (cases x)
  case (W_tag i t)
  then show ?thesis using tag_ok [OF assms(1)] by simp
next
  case (W_uint32 v)
  then show ?thesis using uint32_ok [OF assms(1)] by simp
next
  case (W_int32 v)
  then show ?thesis using uint32_ok [OF assms(1)] by (simp add: int32_def)
next
  case (W_sint32 v)
  then show ?thesis using uint32w_ok [OF assms(1)] by (simp add: sint32_def)
next
  case (W_uint64 v)
  then show ?thesis
    using writeLongVarint_ok [OF assms(1), of "fst (long_bits v)" "snd (long_bits v)"]
    by (cases v) (simp_all add: Let_def)
next
  case (W_int64 v)
  then show ?thesis
    using writeLongVarint_ok [OF assms(1), of "fst (long_bits v)" "snd (long_bits v)"]
    by (cases v) (simp_all add: Let_def int64_def)
next
  case (W_sint64 v)
  then show ?thesis
    using writeLongVarint_ok [OF assms(1), of "fst (zzEncode (LongBits_from v))" "snd (zzEncode (LongBits_from v))"]
    by (simp add: sint64_def Let_def)
next
  case (W_bool v)
  then show ?thesis using bool_ok [OF assms(1)] by simp
next
  case (W_fixed32 v)
  then show ?thesis using fixed32w_ok [OF assms(1)] by (simp add: fixed32_def)
next
  case (W_sfixed32 v)
  then show ?thesis using fixed32w_ok [OF assms(1)] by (simp add: sfixed32_def)
next
  case (W_fixed64 v)
  then show ?thesis
    using writeLongFixed_ok [OF assms(1), of "fst (long_bits v)" "snd (long_bits v)"]
    by (cases v) (simp_all add: Let_def)
next
  case (W_sfixed64 v)
  then show ?thesis
    using writeLongFixed_ok [OF assms(1), of "fst (zzEncode (LongBits_from v))" "snd (zzEncode (LongBits_from v))"]
    by (simp add: sfixed64_def Let_def)
next
  case (W_float v)
  then show ?thesis using float_ok [OF assms(1)] by simp
next
  case (W_double v)
  then show ?thesis using double_ok [OF assms(1)] by simp
next
  case (W_bytes v)
  then show ?thesis using bytes_ok [OF assms(1), of v] assms(2) by simp
next
  case (W_string v)
  then show ?thesis using string_ok [OF assms(1), of v] by simp
qed

lemma write_ops_ok:
  "winv w \<Longrightarrow> list_all wop_ok xs \<Longrightarrow>
   \<exists>w'. write_ops xs w = Inr w' \<and> appends w (concat (map wop_bytes xs)) w'"
proof (induction xs arbitrary: w)
  case Nil
  then show ?case by (simp add: appends_refl)
next
  case (Cons x xs)
  then obtain w1 where w1: "write_op x w = Inr w1" "appends w (wop_bytes x) w1"
    using write_op_ok [of w x] by auto
  then have "winv w1" by (simp add: appends_def)
  with Cons obtain w' where "write_ops xs w1 = Inr w'" "appends w1 (concat (map wop_bytes xs)) w'"
    by auto
  with w1 show ?case using appends_trans [OF w1(2)] by auto
qed

lemma winv_fork: "winv w \<Longrightarrow> winv (fork w)"
  by (simp add: winv_def fork_def buf_ok_def state_ok_def State_def)

lemma contents_fork: "contents (fork w) = []"
  by (simp add: contents_def fork_def)

lemma reset_after_fork:
  "stack w1 = stack (fork w) \<Longrightarrow> reset w1 = w\<lparr>emptyArray := emptyArray w1\<rparr>"
  by (cases w, cases w1) (simp add: reset_def fork_def apply_state_def State_def)

lemma winv_reset: "winv w \<Longrightarrow> winv (reset w)"
proof (cases "stack w = []")
  case True
  then show ?thesis by (simp add: winv_def reset_def buf_ok_def)
next
  case False
  assume "winv w"
  then have a: "list_all state_ok (stack w)" by (simp add: winv_def)
  with False have "state_ok (last (stack w))" by (simp add: list_all_iff)
  moreover from a have "list_all state_ok (butlast (stack w))"
    by (auto simp: list_all_iff dest: in_set_butlastD)
  ultimately show ?thesis using False
    by (simp add: winv_def reset_def apply_state_def state_ok_def)
qed

lemma le_bytes_nonempty: "0 < n \<Longrightarrow> le_bytes n x \<noteq> []"
  by (cases n) simp_all

lemma wop_bytes_nonempty: "wop_bytes x \<noteq> []"
  by (cases x) (simp_all add: varint_nonempty fixed32_bytes_def fixed64_bytes_def le_bytes_nonempty)

lemma written_nonempty: "xs \<noteq> [] \<Longrightarrow> concat (map wop_bytes xs) \<noteq> []"
  by (cases xs) (simp_all add: wop_bytes_nonempty)

lemma setup_step_fork: "setup_step w (fork w)"
  by (simp add: setup_step_def fork_def)

lemma setup_step_reset: "setup_step w (reset w)"
  by (simp add: setup_step_def emptyArray_reset)

lemma fork_finish:
  assumes "winv w" and "list_all wop_ok xs"
  shows "\<exists>w1 e. write_ops xs (fork w) = Inr w1 \<and>
           finish w1 = Inr (if xs = [] then emptyArray w else Some (concat (map wop_bytes xs)),
                            w\<lparr>emptyArray := e\<rparr>) \<and>
           (e = emptyArray w \<or> (emptyArray w = None \<and> e = Some (alloc_array 0))) \<and>
           (xs = [] \<longrightarrow> e = emptyArray w)"
proof -
  define body where "body = concat (map wop_bytes xs)"
  from write_ops_ok [OF winv_fork [OF assms(1)] assms(2)] obtain w1 where
    w1: "write_ops xs (fork w) = Inr w1" "appends (fork w) body w1" by (auto simp: body_def)
  then have i: "winv w1" and c: "contents w1 = body" and st: "stack w1 = stack (fork w)"
    and ss: "setup_step (fork w) w1"
    by (simp_all add: appends_def contents_fork)
  from finish_ok [OF i] obtain e where
    f: "finish w1 = Inr (case buf w1 of None \<Rightarrow> emptyArray w1 | Some b \<Rightarrow> Some (contents w1),
                         (reset w1)\<lparr>emptyArray := e\<rparr>)"
    and e: "e = emptyArray w1 \<or> (emptyArray w1 = None \<and> e = Some (alloc_array 0))"
    and en: "buf w1 = None \<longrightarrow> e = emptyArray w1"
    by auto
  have r: "(reset w1)\<lparr>emptyArray := e\<rparr> = w\<lparr>emptyArray := e\<rparr>"
    by (simp add: reset_after_fork [OF st])
  have fe: "emptyArray (fork w) = emptyArray w" by (simp add: fork_def)
  from ss e have e': "e = emptyArray w \<or> (emptyArray w = None \<and> e = Some (alloc_array 0))"
    by (auto simp: setup_step_def fe)
  show ?thesis
  proof (cases "xs = []")
    case True
    with w1(1) have "w1 = fork w" by simp
    then have "buf w1 = None" "emptyArray w1 = emptyArray w" by (simp_all add: fork_def)
    with True w1(1) f r en show ?thesis by simp
  next
    case False
    then have "body \<noteq> []" unfolding body_def by (rule written_nonempty)
    with i c have "buf w1 \<noteq> None" using buf_of_contents [of w1] by simp
    with False w1(1) f r e' c show ?thesis by (auto simp: body_def)
  qed
qed

lemma fresh_finish:
  assumes "list_all wop_ok xs"
  shows "\<exists>w2 w3. write_ops xs (Writer_in e) = Inr w2 \<and>
           finish w2 = Inr (if xs = [] then e else Some (concat (map wop_bytes xs)), w3)"
proof -
  define body where "body = concat (map wop_bytes xs)"
  from write_ops_ok [OF winv_Writer_in assms] obtain w2 where
    w2: "write_ops xs (Writer_in e) = Inr w2" "appends (Writer_in e) body w2"
    by (auto simp: body_def)
  then have i: "winv w2" and c: "contents w2 = body"
    by (simp_all add: appends_def contents_Writer_in)
  show ?thesis
  proof (cases "xs = []")
    case True
    with w2(1) have "w2 = Writer_in e" by simp
    then have "buf w2 = None" "emptyArray w2 = e" by (simp_all add: Writer_in_def)
    with True w2(1) finish_ok [OF i] show ?thesis by auto
  next
    case False
    then have "body \<noteq> []" unfolding body_def by (rule written_nonempty)
    with i c False w2(1) show ?thesis using finish_written [of w2] by (auto simp: body_def)
  qed
qed

lemma run_op_ok:
  assumes "winv w" and "public_ok x"
  shows "\<exists>w'. run_op x w = Inr w' \<and> winv w' \<and> setup_step w w'"
proof (cases x)
  case (Write y)
  with assms show ?thesis using write_op_ok [of w y] by (auto simp: appends_def)
next
  case Fork
  with assms show ?thesis by (simp add: winv_fork setup_step_fork)
next
  case Reset
  with assms show ?thesis by (simp add: winv_reset setup_step_reset)
next
  case Finish
  from finish_ok [OF assms(1)] obtain e where
    f: "finish w = Inr (case buf w of None \<Rightarrow> emptyArray w | Some b \<Rightarrow> Some (contents w),
                        (reset w)\<lparr>emptyArray := e\<rparr>)"
    and e: "e = emptyArray w \<or> (emptyArray w = None \<and> e = Some (alloc_array 0))"
    by auto
  have "winv ((reset w)\<lparr>emptyArray := e\<rparr>)"
    using winv_reset [OF assms(1)] by (simp add: winv_def)
  with Finish f e show ?thesis by (auto simp: setup_step_def)
qed

lemma run_ok:
  "winv w \<Longrightarrow> list_all public_ok xs \<Longrightarrow> \<exists>w'. run xs w = Inr w' \<and> winv w' \<and> setup_step w w'"
proof (induction xs arbitrary: w)
  case Nil
  then show ?case by (simp add: setup_step_refl)
next
  case (Cons x xs)
  then obtain w1 where w1: "run_op x w = Inr w1" "winv w1" "setup_step w w1"
    using run_op_ok [of w x] by auto
  with Cons obtain w' where "run xs w1 = Inr w'" "winv w'" "setup_step w1 w'" by fastforce
  with w1 show ?case using setup_step_trans [of w w1 w'] by auto
qed

lemma take_one_byte: "take (Suc 0) ((alloc_array 256)[0 := v]) = [v]"
  by (simp add: alloc_array_def take_Suc_conv_app_nth)

lemma one_byte_eval: "uint32 1 Writer = Inr one_byte_writer"
  by (simp add: uint32_def uint32w_def Writer_def Writer_in_def uint32_slow.simps ensure1_def
      expand_def BUFFER_SIZE_def put_def one_byte_writer_def alloc_def Writer_setup_def)

lemma one_byte_forked_eval: "write_ops [W_bool True] (fork one_byte_writer) = Inr one_byte_forked"
  unfolding one_byte_writer_def one_byte_forked_def
  by (simp add: bool_def fork_def ensure1_def expand_def BUFFER_SIZE_def put_def State_def
      alloc_def)

lemma one_byte_finish: "finish one_byte_forked = Inr (Some [1], one_byte_writer)"
  by (simp add: finish_def Let_def reset_def apply_state_def one_byte_forked_def
      one_byte_writer_def take_one_byte)

subsection \<open>Fork, finish and reset\<close>

text \<open>
  Claim C1, as amended. On a writer that satisfies the invariant, after
  \<^verbatim>\<open>fork()\<close> and any sequence of writing calls, \<^verbatim>\<open>finish()\<close> returns the value \<open>b\<close>
  of those calls and leaves the writer equal to the writer before \<^verbatim>\<open>fork()\<close>, snapshot
  stack included: \<^verbatim>\<open>finish()\<close> itself pops the snapshot. Only the variable
  \<^verbatim>\<open>emptyArray\<close> of the module can differ, when the calls made the first allocation of the
  process. A new writer of the same process, made before or after, finishes the same
  calls to the same \<open>b\<close>.
\<close>

theorem fork_finish_restores:
  assumes "winv w" and "list_all wop_ok xs"
  shows "\<exists>w1 b e. write_ops xs (fork w) = Inr w1 \<and> finish w1 = Inr (b, w\<lparr>emptyArray := e\<rparr>) \<and>
            (e = emptyArray w \<or> (emptyArray w = None \<and> e = Some (alloc_array 0))) \<and>
            (\<exists>w2 w3. write_ops xs (Writer_in (emptyArray w)) = Inr w2 \<and> finish w2 = Inr (b, w3)) \<and>
            (\<exists>w2 w3. write_ops xs (Writer_in e) = Inr w2 \<and> finish w2 = Inr (b, w3))"
proof -
  from fork_finish [OF assms] obtain w1 e where
    1: "write_ops xs (fork w) = Inr w1"
       "finish w1 = Inr (if xs = [] then emptyArray w else Some (concat (map wop_bytes xs)),
                         w\<lparr>emptyArray := e\<rparr>)"
       "e = emptyArray w \<or> (emptyArray w = None \<and> e = Some (alloc_array 0))"
       "xs = [] \<longrightarrow> e = emptyArray w"
    by blast
  from fresh_finish [OF assms(2), of "emptyArray w"] obtain w2 w3 where
    2: "write_ops xs (Writer_in (emptyArray w)) = Inr w2"
       "finish w2 = Inr (if xs = [] then emptyArray w else Some (concat (map wop_bytes xs)), w3)"
    by blast
  from fresh_finish [OF assms(2), of e] obtain w4 w5 where
    3: "write_ops xs (Writer_in e) = Inr w4"
       "finish w4 = Inr (if xs = [] then e else Some (concat (map wop_bytes xs)), w5)"
    by blast
  from 1(4) 3(2) have
    "finish w4 = Inr (if xs = [] then emptyArray w else Some (concat (map wop_bytes xs)), w5)"
    by (cases "xs = []") simp_all
  with 1 2 3(1) show ?thesis by blast
qed

theorem fork_finish_restores_witness:
  "\<exists>w1 b e. write_ops [W_bool True, W_uint32 300] (fork one_byte_writer) = Inr w1 \<and>
          finish w1 = Inr (b, one_byte_writer\<lparr>emptyArray := e\<rparr>) \<and>
          (e = emptyArray one_byte_writer \<or>
           (emptyArray one_byte_writer = None \<and> e = Some (alloc_array 0))) \<and>
          (\<exists>w2 w3. write_ops [W_bool True, W_uint32 300] (Writer_in (emptyArray one_byte_writer)) = Inr w2 \<and>
                   finish w2 = Inr (b, w3)) \<and>
          (\<exists>w2 w3. write_ops [W_bool True, W_uint32 300] (Writer_in e) = Inr w2 \<and>
                   finish w2 = Inr (b, w3))"
proof -
  have "winv one_byte_writer"
    by (simp add: winv_def buf_ok_def one_byte_writer_def alloc_array_def)
  moreover have "list_all wop_ok [W_bool True, W_uint32 300]" by simp
  ultimately show ?thesis by (rule fork_finish_restores)
qed

text \<open>
  The protocol of claim C1 as it is written fails: on the writer
  \<^verbatim>\<open>new Writer().uint32(1)\<close>, the calls \<^verbatim>\<open>fork().bool(true)\<close> and \<^verbatim>\<open>finish()\<close> give the
  byte \<open>1\<close> and the writer as it was before the fork; the \<^verbatim>\<open>reset()\<close> that follows finds
  the stack empty and clears the writer, which is not the state before the fork.
\<close>

theorem fork_finish_reset_counterexample:
  "uint32 1 Writer = Inr one_byte_writer \<and>
   write_ops [W_bool True] (fork one_byte_writer) = Inr one_byte_forked \<and>
   finish one_byte_forked = Inr (Some [1], one_byte_writer) \<and>
   reset one_byte_writer = Writer_in (Some (alloc_array 0)) \<and>
   pos one_byte_writer = 1 \<and> pos (Writer_in (Some (alloc_array 0))) = 0"
  by (intro conjI one_byte_eval one_byte_forked_eval one_byte_finish)
     (simp_all add: reset_def one_byte_writer_def Writer_in_def)

subsection \<open>The invariant of the data model\<close>

lemma finish_Writer: "finish Writer = Inr (None, Writer)"
  by (simp add: finish_def Let_def reset_def Writer_def Writer_in_def)

lemma finish_fork_Writer: "finish (fork Writer) = Inr (None, Writer)"
  by (simp add: finish_def Let_def reset_def fork_def apply_state_def State_def Writer_def
      Writer_in_def)

text \<open>
  Claim C2 fails on the code in its second part. Every sequence of public operations
  (writing calls, \<^verbatim>\<open>fork\<close>, \<^verbatim>\<open>reset\<close>, \<^verbatim>\<open>finish\<close>) on a new writer runs without an
  exception and ends in a writer with \<open>pos \<le> len\<close> and with \<^verbatim>\<open>buf\<close> null exactly when
  \<open>len\<close> is zero; every prefix of the sequence is such a sequence, so this holds after
  each operation. On that writer \<^verbatim>\<open>finish()\<close> returns the sealed chunks of \<^verbatim>\<open>bufs\<close> in
  order followed by \<^verbatim>\<open>buf[0..pos]\<close>, except when \<^verbatim>\<open>buf\<close> is null and nothing has been
  allocated in the process yet: then it returns null, the initial value of
  \<^verbatim>\<open>emptyArray\<close>, and not the empty byte sequence. So do \<^verbatim>\<open>new Writer().finish()\<close> and
  \<^verbatim>\<open>new Writer().fork().finish()\<close> as the first calls of a process. Once \<^verbatim>\<open>setup\<close> has
  run, \<^verbatim>\<open>emptyArray\<close> is never null again.
\<close>

theorem finish_null_before_setup:
  assumes "list_all public_ok xs" and "e = None \<or> e = Some (alloc_array 0)"
  shows "(\<exists>w. run xs (Writer_in e) = Inr w \<and> pos w \<le> len w \<and> (buf w = None \<longleftrightarrow> len w = 0) \<and>
            (\<exists>w'. finish w =
                    Inr (if buf w = None \<and> emptyArray w = None then None
                         else Some (concat (bufs w) @
                                    (case buf w of None \<Rightarrow> [] | Some b \<Rightarrow> take (pos w) b)), w')) \<and>
            (emptyArray w = None \<longrightarrow> e = None)) \<and>
         finish Writer = Inr (None, Writer) \<and>
         finish (fork Writer) = Inr (None, Writer)"
proof -
  from run_ok [OF winv_Writer_in assms(1), of e] obtain w where
    w: "run xs (Writer_in e) = Inr w" "winv w" "setup_step (Writer_in e) w" by auto
  from w(2) have inv: "pos w \<le> len w" "buf w = None \<longleftrightarrow> len w = 0"
    by (auto simp: winv_def buf_ok_def split: option.splits)
  from w(3) assms(2) have m: "emptyArray w = None \<or> emptyArray w = Some (alloc_array 0)"
    and m': "emptyArray w = None \<longrightarrow> e = None"
    by (auto simp: setup_step_def Writer_in_def)
  from w(2) have b: "buf w = None \<longrightarrow> bufs w = []"
    by (auto simp: winv_def buf_ok_def)
  from finish_ok [OF w(2)] obtain w' where
    f: "finish w = Inr (case buf w of None \<Rightarrow> emptyArray w | Some b \<Rightarrow> Some (contents w), w')"
    by blast
  have "(case buf w of None \<Rightarrow> emptyArray w | Some b \<Rightarrow> Some (contents w)) =
        (if buf w = None \<and> emptyArray w = None then None
         else Some (concat (bufs w) @ (case buf w of None \<Rightarrow> [] | Some b \<Rightarrow> take (pos w) b)))"
    using m b by (cases "buf w") (auto simp: contents_def alloc_array_def)
  with f have "\<exists>w'. finish w =
      Inr (if buf w = None \<and> emptyArray w = None then None
           else Some (concat (bufs w) @ (case buf w of None \<Rightarrow> [] | Some b \<Rightarrow> take (pos w) b)), w')"
    by auto
  with w(1) inv m' show ?thesis
    by (auto simp: finish_Writer finish_fork_Writer)
qed

theorem finish_null_before_setup_witness:
  "(\<exists>w. run [Write (W_uint32 300), Fork, Write (W_bytes [1, 2]), Finish, Reset] (Writer_in None) = Inr w \<and>
        pos w \<le> len w \<and> (buf w = None \<longleftrightarrow> len w = 0) \<and>
        (\<exists>w'. finish w =
                Inr (if buf w = None \<and> emptyArray w = None then None
                     else Some (concat (bufs w) @
                                (case buf w of None \<Rightarrow> [] | Some b \<Rightarrow> take (pos w) b)), w')) \<and>
        (emptyArray w = None \<longrightarrow> (None :: byte list option) = None)) \<and>
   finish Writer = Inr (None, Writer) \<and>
   finish (fork Writer) = Inr (None, Writer)"
proof -
  have "list_all public_ok [Write (W_uint32 300), Fork, Write (W_bytes [1, 2]), Finish, Reset]"
    by simp
  moreover have "(None :: byte list option) = None \<or> None = Some (alloc_array 0)" by simp
  ultimately show ?thesis by (rule finish_null_before_setup)
qed

subsection \<open>Strings and UTF-8\<close>

lemma signed_drop_bit_small:
  "\<not> bit (c :: 32 word) 31 \<Longrightarrow> signed_drop_bit k c = drop_bit k c"
  by (rule bit_word_eqI) (auto simp: bit_simps dest: bit_imp_le_length)

lemma bit31: 
  assumes "unat (c :: 32 word) < 2 ^ 31" shows "\<not> bit c 31"
proof -
  have "bit (unat c) 31 = bit c 31" by (simp add: bit_unsigned_iff)
  moreover have "\<not> bit (unat c) 31" using assms by (simp add: bit_iff_odd)
  ultimately show ?thesis by simp
qed

lemma unat_sdrop:
  assumes "unat (c :: 32 word) < 2 ^ 31"
  shows "unat (signed_drop_bit k c) = unat c div 2 ^ k"
proof -
  have "signed_drop_bit k c = drop_bit k c"
    using assms by (intro signed_drop_bit_small bit31)
  then have "unat (signed_drop_bit k c) = drop_bit k (unat c)"
    by (simp only: unat_drop_bit_eq)
  then show ?thesis by (simp add: drop_bit_eq_div)
qed

lemma unat_and_63: "unat ((c :: 32 word) AND 63) = unat c mod 64"
  using nat_and_mask [of "unat c" 6] by (simp add: unsigned_and_eq)

lemma unat_and_3FF: "unat ((c :: 32 word) AND 0x3FF) = unat c mod 1024"
  using nat_and_mask [of "unat c" 10] by (simp add: unsigned_and_eq)

lemma unat_ucast_byte: "unat (ucast (c :: 32 word) :: byte) = unat c mod 256"
  by (simp add: unsigned_ucast_eq take_bit_eq_mod)

lemma nat_and_FC00:
  assumes "n < 2 ^ 16" shows "(n :: nat) AND 0xFC00 = (n div 1024) * 1024"
proof -
  have c: "(0xFC00 :: nat) = push_bit 10 (mask 6)"
    by (simp add: push_bit_eq_mult mask_eq_exp_minus_1)
  have "n AND push_bit 10 (mask 6) = push_bit 10 (take_bit 6 (drop_bit 10 n))"
    by (rule bit_eqI) (auto simp: bit_simps)
  moreover have "drop_bit 10 n < 2 ^ 6" using assms by (simp add: drop_bit_eq_div less_mult_imp_div_less)
  then have "take_bit 6 (drop_bit 10 n) = drop_bit 10 n" by (simp add: take_bit_nat_eq_self)
  ultimately show ?thesis by (simp add: c push_bit_eq_mult drop_bit_eq_div)
qed


lemma unat_and_FC00:
  assumes "unat (c :: 32 word) < 2 ^ 16"
  shows "unat (c AND 0xFC00) = (unat c div 1024) * 1024"
  using nat_and_FC00 [OF assms] by (simp add: unsigned_and_eq)

lemma word_eq_unat: "(a :: 32 word) = b \<longleftrightarrow> unat a = unat b"
  by (simp add: word_unat_eq_iff)

lemma is_D800:
  assumes "unat (c :: 32 word) < 2 ^ 16"
  shows "(c AND 0xFC00 = 0xD800) \<longleftrightarrow> (0xD800 \<le> unat c \<and> unat c < 0xDC00)"
proof -
  have "(c AND 0xFC00 = 0xD800) \<longleftrightarrow> (unat c div 1024) * 1024 = 0xD800"
    using unat_and_FC00 [OF assms] by (simp add: word_eq_unat)
  also have "\<dots> \<longleftrightarrow> (0xD800 \<le> unat c \<and> unat c < 0xDC00)" by auto
  finally show ?thesis .
qed

lemma is_DC00:
  assumes "unat (c :: 32 word) < 2 ^ 16"
  shows "(c AND 0xFC00 = 0xDC00) \<longleftrightarrow> (0xDC00 \<le> unat c \<and> unat c < 0xE000)"
proof -
  have "(c AND 0xFC00 = 0xDC00) \<longleftrightarrow> (unat c div 1024) * 1024 = 0xDC00"
    using unat_and_FC00 [OF assms] by (simp add: word_eq_unat)
  also have "\<dots> \<longleftrightarrow> (0xDC00 \<le> unat c \<and> unat c < 0xE000)" by auto
  finally show ?thesis .
qed

lemma unat16_less: "unat (u :: 16 word) < 2 ^ 16"
  using unsigned_less [of u, where 'a = nat] by simp

lemma unat_ucast16: "unat (ucast (u :: 16 word) :: 32 word) = unat u"
proof -
  have "unat u < 2 ^ 32" using unat16_less [of u] by simp
  then have "take_bit 32 (unat u) = unat u" by (rule take_bit_nat_eq_self)
  then show ?thesis by (simp add: unsigned_ucast_eq)
qed

lemma lead_byte:
  assumes "unat (x :: 32 word) < 2 ^ k" and "unat m = 2 ^ k * c" and "2 ^ k * c + 2 ^ k \<le> 256"
  shows "ucast (x OR m) = (of_nat (2 ^ k * c + unat x) :: byte)"
proof (rule byte_of_unat)
  have "unat (x OR m) = unat x + 2 ^ k * c"
    using nat_or_high [OF assms(1), of c] by (simp add: unsigned_or_eq assms(2))
  moreover have "unat x + 2 ^ k * c < 256" using assms(1,3) by simp
  ultimately show "unat (ucast (x OR m) :: byte) = 2 ^ k * c + unat x"
    by (simp add: unat_ucast_byte)
qed

lemma cont_byte6: "ucast ((x AND 63) OR 128) = (of_nat (128 + unat (x :: 32 word) mod 64) :: byte)"
  using lead_byte [of "x AND 63" 7 128 1] by (simp add: unat_and_63)

lemma split2: "(n div (b * c)) * (b * c) + (n div b mod c) * b + n mod b = n" for n b c :: nat
proof -
  define m where "m = n div b"
  define q where "q = m div c"
  define r where "r = m mod c"
  have m: "m = q * c + r" by (simp add: q_def r_def)
  have "n div (b * c) = q" by (simp add: q_def m_def div_mult2_eq)
  moreover have "n = m * b + n mod b" by (simp add: m_def)
  ultimately show ?thesis
    unfolding m_def [symmetric] r_def [symmetric] by (simp add: m algebra_simps)
qed

lemma e3: "(cp div 4096) * 4096 + (cp div 64 mod 64) * 64 + cp mod 64 = (cp::nat)"
  using split2 [of cp 64 64] by simp

lemma e4: "(cp div 262144) * 262144 + (cp div 4096 mod 64) * 4096 + (cp div 64 mod 64) * 64 + cp mod 64 = (cp::nat)"
proof -
  have "cp mod 4096 = (cp div 64 mod 64) * 64 + cp mod 64"
    using mod_mult2_eq [of cp 64 64] by simp
  with split2 [of cp 4096 64] show ?thesis by simp
qed


lemma unat_byte_plus: "a + b < 256 \<Longrightarrow> unat (of_nat (a + b) :: byte) = a + b"
  by (rule unat_byte)

lemma dec2:
  assumes "a < 32" and "b < 64" and "accepted strict 0x80 (a * 64 + b)"
  shows "utf8_decode strict (of_nat (0xC0 + a) # of_nat (0x80 + b) # rest) =
           map_option (Cons (a * 64 + b)) (utf8_decode strict rest)"
proof -
  have b0: "unat (of_nat (0xC0 + a) :: byte) = 0xC0 + a" using assms(1) by (intro unat_byte_plus) simp
  have b1: "unat (of_nat (0x80 + b) :: byte) = 0x80 + b" using assms(2) by (intro unat_byte_plus) simp
  show ?thesis
    using assms by (simp add: b0 b1 Let_def continuation_def del: of_nat_add)
qed

lemma dec3:
  assumes "a < 16" and "b < 64" and "c < 64" and "accepted strict 0x800 (a * 4096 + b * 64 + c)"
  shows "utf8_decode strict (of_nat (0xE0 + a) # of_nat (0x80 + b) # of_nat (0x80 + c) # rest) =
           map_option (Cons (a * 4096 + b * 64 + c)) (utf8_decode strict rest)"
proof -
  have b0: "unat (of_nat (0xE0 + a) :: byte) = 0xE0 + a" using assms(1) by (intro unat_byte_plus) simp
  have b1: "unat (of_nat (0x80 + b) :: byte) = 0x80 + b" using assms(2) by (intro unat_byte_plus) simp
  have b2: "unat (of_nat (0x80 + c) :: byte) = 0x80 + c" using assms(3) by (intro unat_byte_plus) simp
  show ?thesis
    using assms by (simp add: b0 b1 b2 Let_def continuation_def del: of_nat_add)
qed

lemma dec4:
  assumes "a < 8" and "b < 64" and "c < 64" and "d < 64"
    and "accepted strict 0x10000 (a * 262144 + b * 4096 + c * 64 + d)"
  shows "utf8_decode strict (of_nat (0xF0 + a) # of_nat (0x80 + b) # of_nat (0x80 + c) #
             of_nat (0x80 + d) # rest) =
           map_option (Cons (a * 262144 + b * 4096 + c * 64 + d)) (utf8_decode strict rest)"
proof -
  have b0: "unat (of_nat (0xF0 + a) :: byte) = 0xF0 + a" using assms(1) by (intro unat_byte_plus) simp
  have b1: "unat (of_nat (0x80 + b) :: byte) = 0x80 + b" using assms(2) by (intro unat_byte_plus) simp
  have b2: "unat (of_nat (0x80 + c) :: byte) = 0x80 + c" using assms(3) by (intro unat_byte_plus) simp
  have b3: "unat (of_nat (0x80 + d) :: byte) = 0x80 + d" using assms(4) by (intro unat_byte_plus) simp
  show ?thesis
    using assms by (simp add: b0 b1 b2 b3 Let_def continuation_def del: of_nat_add)
qed

lemma utf8_decode_cp:
  assumes "cp < 0x110000" and "strict \<longrightarrow> (cp < 0xD800 \<or> 0xE000 \<le> cp)"
  shows "utf8_decode strict (utf8_of_cp cp @ rest) = map_option (Cons cp) (utf8_decode strict rest)"
proof -
  consider "cp < 0x80" | "0x80 \<le> cp" "cp < 0x800" | "0x800 \<le> cp" "cp < 0x10000" | "0x10000 \<le> cp"
    by linarith
  then show ?thesis
  proof cases
    case 1
    then show ?thesis by (simp add: utf8_of_cp_def unat_byte)
  next
    case 2
    have e: "(cp div 64) * 64 + cp mod 64 = cp" by simp
    have "accepted strict 0x80 ((cp div 64) * 64 + cp mod 64)"
      unfolding e using 2 by (simp add: accepted_def)
    moreover have "cp div 64 < 32" "cp mod 64 < 64" using 2 by simp_all
    ultimately have "utf8_decode strict (of_nat (0xC0 + cp div 64) # of_nat (0x80 + cp mod 64) # rest) =
           map_option (Cons ((cp div 64) * 64 + cp mod 64)) (utf8_decode strict rest)"
      by (intro dec2)
    then show ?thesis unfolding e using 2 by (simp add: utf8_of_cp_def del: of_nat_add)
  next
    case 3
    have e: "(cp div 4096) * 4096 + (cp div 64 mod 64) * 64 + cp mod 64 = cp" by (rule e3)
    have "accepted strict 0x800 ((cp div 4096) * 4096 + (cp div 64 mod 64) * 64 + cp mod 64)"
      unfolding e using 3 assms by (simp add: accepted_def)
    moreover have "cp div 4096 < 16" "cp div 64 mod 64 < 64" "cp mod 64 < 64" using 3 by simp_all
    ultimately have "utf8_decode strict (of_nat (0xE0 + cp div 4096) # of_nat (0x80 + cp div 64 mod 64) #
             of_nat (0x80 + cp mod 64) # rest) =
           map_option (Cons ((cp div 4096) * 4096 + (cp div 64 mod 64) * 64 + cp mod 64))
             (utf8_decode strict rest)"
      by (intro dec3)
    then show ?thesis unfolding e using 3 by (simp add: utf8_of_cp_def del: of_nat_add)
  next
    case 4
    have e: "(cp div 262144) * 262144 + (cp div 4096 mod 64) * 4096 + (cp div 64 mod 64) * 64 + cp mod 64 = cp"
      by (rule e4)
    have "accepted strict 0x10000
            ((cp div 262144) * 262144 + (cp div 4096 mod 64) * 4096 + (cp div 64 mod 64) * 64 + cp mod 64)"
      unfolding e using 4 assms by (simp add: accepted_def)
    moreover have "cp div 262144 < 8" "cp div 4096 mod 64 < 64" "cp div 64 mod 64 < 64" "cp mod 64 < 64"
      using assms(1) by simp_all
    ultimately have "utf8_decode strict (of_nat (0xF0 + cp div 262144) # of_nat (0x80 + cp div 4096 mod 64) #
             of_nat (0x80 + cp div 64 mod 64) # of_nat (0x80 + cp mod 64) # rest) =
           map_option (Cons ((cp div 262144) * 262144 + (cp div 4096 mod 64) * 4096 +
              (cp div 64 mod 64) * 64 + cp mod 64)) (utf8_decode strict rest)"
      by (intro dec4)
    then show ?thesis unfolding e using 4 by (simp add: utf8_of_cp_def del: of_nat_add)
  qed
qed

lemma utf8_decode_all:
  assumes "\<forall>cp \<in> set cps. cp < 0x110000 \<and> (strict \<longrightarrow> (cp < 0xD800 \<or> 0xE000 \<le> cp))"
  shows "utf8_decode strict (concat (map utf8_of_cp cps)) = Some cps"
  using assms by (induction cps) (simp_all add: utf8_decode_cp)

lemma pair_cp_bounds:
  assumes "high_surrogate u1" and "low_surrogate u2"
  shows "0x10000 \<le> 0x10000 + (unat u1 - 0xD800) * 0x400 + (unat u2 - 0xDC00)"
    and "0x10000 + (unat u1 - 0xD800) * 0x400 + (unat u2 - 0xDC00) < 0x110000"
  using assms unfolding high_surrogate_def low_surrogate_def by linarith+

lemma code_points_bound: "cp \<in> set (code_points s) \<Longrightarrow> cp < 0x110000"
proof (induction s arbitrary: cp rule: code_points.induct)
  case 1
  then show ?case by simp
next
  case (2 u)
  then show ?case using unat16_less [of u] by simp
next
  case (3 u1 u2 us)
  then show ?case
    using unat16_less [of u1] pair_cp_bounds(2) [of u1 u2]
    by (auto split: if_splits)
qed

lemma code_points_scalar:
  "well_formed_utf16 s \<Longrightarrow> cp \<in> set (code_points s) \<Longrightarrow> cp < 0xD800 \<or> 0xE000 \<le> cp"
proof (induction s arbitrary: cp rule: code_points.induct)
  case 1
  then show ?case by simp
next
  case (2 u)
  then show ?case by (auto simp: high_surrogate_def low_surrogate_def)
next
  case (3 u1 u2 us)
  show ?case
  proof (cases "high_surrogate u1")
    case True
    with "3.prems" have l: "low_surrogate u2" and w: "well_formed_utf16 us" by simp_all
    from "3.prems"(2) True l consider
      "cp = 0x10000 + (unat u1 - 0xD800) * 0x400 + (unat u2 - 0xDC00)" | "cp \<in> set (code_points us)"
      by auto
    then show ?thesis
    proof cases
      case 1
      then show ?thesis by simp
    next
      case 2
      with "3.IH"(1) True l w show ?thesis by simp
    qed
  next
    case False
    with "3.prems" have l: "\<not> low_surrogate u1" and w: "well_formed_utf16 (u2 # us)" by simp_all
    from "3.prems"(2) False consider "cp = unat u1" | "cp \<in> set (code_points (u2 # us))"
      by auto
    then show ?thesis
    proof cases
      case 1
      with False l show ?thesis by (auto simp: high_surrogate_def low_surrogate_def)
    next
      case 2
      with "3.IH"(2) False w show ?thesis by simp
    qed
  qed
qed

lemma utf16_pair:
  assumes "high_surrogate u1" and "low_surrogate u2"
  shows "utf16_of_cp (0x10000 + (unat u1 - 0xD800) * 0x400 + (unat u2 - 0xDC00)) = [u1, u2]"
proof -
  define a where "a = unat u1 - 0xD800"
  define b where "b = unat u2 - 0xDC00"
  have b: "b < 0x400" using assms(2) unfolding b_def low_surrogate_def by linarith
  have u1: "0xD800 + a = unat u1" using assms(1) unfolding a_def high_surrogate_def by linarith
  have u2: "0xDC00 + b = unat u2" using assms(2) unfolding b_def low_surrogate_def by linarith
  have "(a * 0x400 + b) div 0x400 = a" "(a * 0x400 + b) mod 0x400 = b" using b by simp_all
  then have "utf16_of_cp (0x10000 + a * 0x400 + b) = [of_nat (0xD800 + a), of_nat (0xDC00 + b)]"
    by (simp add: utf16_of_cp_def del: of_nat_add)
  then show ?thesis unfolding u1 u2 by (simp add: a_def b_def)
qed

lemma utf16_single: "utf16_of_cp (unat (u :: 16 word)) = [u]"
  using unat16_less [of u] by (simp add: utf16_of_cp_def)

lemma utf16_code_points: "concat (map utf16_of_cp (code_points s)) = s"
  by (induction s rule: code_points.induct) (simp_all add: utf16_single utf16_pair)

lemma code_points_Cons:
  "code_points (u # us) =
     (if high_surrogate u \<and> us \<noteq> [] \<and> low_surrogate (hd us)
      then (0x10000 + (unat u - 0xD800) * 0x400 + (unat (hd us) - 0xDC00)) # code_points (tl us)
      else unat u # code_points us)"
  by (cases us) simp_all

lemma ucast16_D800: "((ucast (u :: 16 word) :: 32 word) AND 0xFC00 = 0xD800) = high_surrogate u"
  using is_D800 [of "ucast u"] unat16_less [of u]
  by (simp add: unat_ucast16 high_surrogate_def)

lemma ucast16_DC00: "((ucast (u :: 16 word) :: 32 word) AND 0xFC00 = 0xDC00) = low_surrogate u"
  using is_DC00 [of "ucast u"] unat16_less [of u]
  by (simp add: unat_ucast16 low_surrogate_def)

lemma surrogate_pair_iff:
  "surrogate_pair (ucast u) us \<longleftrightarrow> high_surrogate u \<and> us \<noteq> [] \<and> low_surrogate (hd us)"
  by (cases us) (simp_all add: surrogate_pair_def ucast16_D800 ucast16_DC00)

lemma mod_1024_in_block:
  fixes n k :: nat
  assumes "k * 1024 \<le> n" and "n < k * 1024 + 1024"
  shows "n mod 1024 = n - k * 1024"
proof -
  define r where "r = n - k * 1024"
  have "r < 1024" "n = r + k * 1024" using assms by (simp_all add: r_def)
  then show ?thesis by (simp add: r_def [symmetric])
qed

lemma unat_sum3:
  assumes "unat (x :: 32 word) < 1024" and "unat (y :: 32 word) < 1024"
  shows "unat (0x10000 + push_bit 10 x + y) = 0x10000 + unat x * 1024 + unat y"
proof -
  have "unat (push_bit 10 x) = take_bit 32 (push_bit 10 (unat x))"
    by (rule unsigned_push_bit_eq [where 'a = nat and 'b = 32, simplified])
  also have "\<dots> = unat x * 1024"
    using assms(1) by (simp add: take_bit_eq_mod push_bit_eq_mult)
  finally have p: "unat (push_bit 10 x) = unat x * 1024" .
  have "unat (0x10000 + push_bit 10 x + y) = (0x10000 + unat x * 1024 + unat y) mod 2 ^ 32"
    by (simp add: unat_word_ariths p mod_simps)
  also have "\<dots> = 0x10000 + unat x * 1024 + unat y" using assms by simp
  finally show ?thesis .
qed

lemma unat_join_pair:
  assumes "high_surrogate u1" and "low_surrogate u2"
  shows "unat (join_pair (ucast u1) (ucast u2)) =
           0x10000 + (unat u1 - 0xD800) * 0x400 + (unat u2 - 0xDC00)"
proof -
  define a where "a = unat u1 - 0xD800"
  define b where "b = unat u2 - 0xDC00"
  define x where "x = (ucast u1 :: 32 word) AND 0x3FF"
  define y where "y = (ucast u2 :: 32 word) AND 0x3FF"
  have a: "unat x = a"
    using assms(1) mod_1024_in_block [of 54 "unat u1"]
    by (simp add: x_def unat_and_3FF unat_ucast16 high_surrogate_def a_def)
  have b: "unat y = b"
    using assms(2) mod_1024_in_block [of 55 "unat u2"]
    by (simp add: y_def unat_and_3FF unat_ucast16 low_surrogate_def b_def)
  have al: "a < 1024" using assms(1) unfolding a_def high_surrogate_def by linarith
  have bl: "b < 1024" using assms(2) unfolding b_def low_surrogate_def by linarith
  have "unat (0x10000 + push_bit 10 x + y) = 0x10000 + unat x * 1024 + unat y"
    using al bl by (intro unat_sum3) (simp_all add: a b)
  then show ?thesis
    unfolding join_pair_def x_def [symmetric] y_def [symmetric] by (simp add: a b a_def b_def)
qed

lemma cp1_byte: "ucast (ucast (u :: 16 word) :: 32 word) = (of_nat (unat u) :: byte)"
  using last_byte [of "ucast u"] by (simp only: unat_ucast16)

lemma lead2:
  assumes "unat (c :: 32 word) < 2048"
  shows "ucast ((signed_drop_bit 6 c) OR 192) = (of_nat (0xC0 + unat c div 64) :: byte)"
proof -
  have s: "unat (signed_drop_bit 6 c) = unat c div 64" using assms unat_sdrop [of c 6] by simp
  then have "unat (signed_drop_bit 6 c) < 2 ^ 6" using assms by simp
  from lead_byte [OF this, of 192 3] s show ?thesis by simp
qed

lemma lead3:
  assumes "unat (c :: 32 word) < 65536"
  shows "ucast ((signed_drop_bit 12 c) OR 224) = (of_nat (0xE0 + unat c div 4096) :: byte)"
proof -
  have s: "unat (signed_drop_bit 12 c) = unat c div 4096" using assms unat_sdrop [of c 12] by simp
  then have "unat (signed_drop_bit 12 c) < 2 ^ 5" using assms by simp
  from lead_byte [OF this, of 224 7] s show ?thesis by simp
qed

lemma lead4:
  assumes "unat (c :: 32 word) < 0x110000"
  shows "ucast ((signed_drop_bit 18 c) OR 240) = (of_nat (0xF0 + unat c div 262144) :: byte)"
proof -
  have s: "unat (signed_drop_bit 18 c) = unat c div 262144" using assms unat_sdrop [of c 18] by simp
  then have "unat (signed_drop_bit 18 c) < 2 ^ 4" using assms by simp
  from lead_byte [OF this, of 240 15] s show ?thesis by simp
qed

lemma cont_shift:
  assumes "unat (c :: 32 word) < 2 ^ 31"
  shows "ucast (((signed_drop_bit k c) AND 63) OR 128) = (of_nat (0x80 + unat c div 2 ^ k mod 64) :: byte)"
  using cont_byte6 [of "signed_drop_bit k c"] unat_sdrop [OF assms, of k] by simp

lemma utf8_Cons_single:
  "\<not> (high_surrogate u \<and> us \<noteq> [] \<and> low_surrogate (hd us)) \<Longrightarrow>
   utf8 (u # us) = utf8_of_cp (unat u) @ utf8 us"
  by (auto simp: utf8_def code_points_Cons)

lemma utf8_Cons_pair:
  "high_surrogate u \<and> us \<noteq> [] \<and> low_surrogate (hd us) \<Longrightarrow>
   utf8 (u # us) =
     utf8_of_cp (0x10000 + (unat u - 0xD800) * 0x400 + (unat (hd us) - 0xDC00)) @ utf8 (tl us)"
  by (simp add: utf8_def code_points_Cons)

lemma string_bytes_utf8: "string_bytes s = utf8 s"
proof (induction s rule: string_bytes.induct)
  case 1
  then show ?case by (simp add: string_bytes.simps utf8_def)
next
  case (2 u us)
  let ?c1 = "ucast u :: 32 word"
  have n: "unat ?c1 = unat u" by (rule unat_ucast16)
  have n16: "unat ?c1 < 65536" using unat16_less [of u] by (simp add: n)
  have lt128: "(?c1 < 128) = (unat u < 128)" by (simp add: word_less_nat_alt n)
  have lt2048: "(?c1 < 2048) = (unat u < 2048)" by (simp add: word_less_nat_alt n)
  consider (a) "unat u < 128"
    | (b) "\<not> unat u < 128" "unat u < 2048"
    | (c) "\<not> unat u < 128" "\<not> unat u < 2048" "surrogate_pair ?c1 us"
    | (d) "\<not> unat u < 128" "\<not> unat u < 2048" "\<not> surrogate_pair ?c1 us"
    by blast
  then show ?case
  proof cases
    case a
    then have nh: "\<not> high_surrogate u" by (simp add: high_surrogate_def)
    have ih: "string_bytes us = utf8 us" using "2.IH"(1) [OF refl] a by (simp add: lt128)
    have "string_bytes (u # us) = ucast ?c1 # string_bytes us"
      using a by (subst string_bytes.simps) (simp add: Let_def lt128)
    also have "\<dots> = utf8_of_cp (unat u) @ utf8 us"
      using a by (simp add: ih utf8_of_cp_def cp1_byte)
    finally show ?thesis using nh by (simp add: utf8_Cons_single)
  next
    case b
    then have nh: "\<not> high_surrogate u" by (simp add: high_surrogate_def)
    have ih: "string_bytes us = utf8 us" using "2.IH"(2) [OF refl] b by (simp add: lt128 lt2048)
    have "string_bytes (u # us) =
        [ucast ((signed_drop_bit 6 ?c1) OR 192), ucast ((?c1 AND 63) OR 128)] @ string_bytes us"
      using b by (subst string_bytes.simps) (simp add: Let_def lt128 lt2048)
    also have "\<dots> = utf8_of_cp (unat u) @ utf8 us"
      using b lead2 [of ?c1] cont_byte6 [of ?c1]
      by (simp add: ih utf8_of_cp_def n del: of_nat_add)
    finally show ?thesis using nh by (simp add: utf8_Cons_single)
  next
    case c
    then have sp: "high_surrogate u \<and> us \<noteq> [] \<and> low_surrogate (hd us)"
      by (simp add: surrogate_pair_iff)
    define cp where "cp = 0x10000 + (unat u - 0xD800) * 0x400 + (unat (hd us) - 0xDC00)"
    let ?c = "join_pair ?c1 (ucast (hd us))"
    have uc: "unat ?c = cp" using sp by (simp add: unat_join_pair cp_def)
    have cpb: "0x10000 \<le> cp" "cp < 0x110000"
      using pair_cp_bounds [of u "hd us"] sp by (simp_all add: cp_def)
    then have c31: "unat ?c < 2 ^ 31" by (simp add: uc)
    have ih: "string_bytes (tl us) = utf8 (tl us)"
      using "2.IH"(3) [OF refl _ _ _ refl] c by (simp add: lt128 lt2048)
    have "string_bytes (u # us) =
        [ucast ((signed_drop_bit 18 ?c) OR 240),
         ucast (((signed_drop_bit 12 ?c) AND 63) OR 128),
         ucast (((signed_drop_bit 6 ?c) AND 63) OR 128),
         ucast ((?c AND 63) OR 128)] @ string_bytes (tl us)"
      using c by (subst string_bytes.simps) (simp add: Let_def lt128 lt2048)
    also have "\<dots> = utf8_of_cp cp @ utf8 (tl us)"
      using cpb lead4 [of ?c] cont_shift [OF c31, of 12] cont_shift [OF c31, of 6] cont_byte6 [of ?c]
      by (simp add: ih utf8_of_cp_def uc del: of_nat_add)
    finally show ?thesis using sp by (simp add: utf8_Cons_pair cp_def)
  next
    case d
    then have nsp: "\<not> (high_surrogate u \<and> us \<noteq> [] \<and> low_surrogate (hd us))"
      by (simp add: surrogate_pair_iff)
    have c31: "unat ?c1 < 2 ^ 31" using n16 by simp
    have ih: "string_bytes us = utf8 us"
      using "2.IH"(4) [OF refl] d by (simp add: lt128 lt2048)
    have "string_bytes (u # us) =
        [ucast ((signed_drop_bit 12 ?c1) OR 224),
         ucast (((signed_drop_bit 6 ?c1) AND 63) OR 128),
         ucast ((?c1 AND 63) OR 128)] @ string_bytes us"
      using d by (subst string_bytes.simps) (simp add: Let_def lt128 lt2048)
    also have "\<dots> = utf8_of_cp (unat u) @ utf8 us"
      using d n16 lead3 [of ?c1] cont_shift [OF c31, of 6] cont_byte6 [of ?c1]
      by (simp add: ih utf8_of_cp_def n del: of_nat_add)
    finally show ?thesis using nsp by (simp add: utf8_Cons_single)
  qed
qed

lemma length_utf8_of_cp: "Suc 0 \<le> length (utf8_of_cp cp)"
  by (simp add: utf8_of_cp_def)

lemma length_le_utf8: "length s \<le> length (utf8 s)"
proof (induction s rule: code_points.induct)
  case 1
  then show ?case by simp
next
  case (2 u)
  then show ?case by (simp add: utf8_def length_utf8_of_cp)
next
  case (3 u1 u2 us)
  show ?case
  proof (cases "high_surrogate u1 \<and> low_surrogate u2")
    case True
    then have "0x10000 \<le> 0x10000 + (unat u1 - 0xD800) * 0x400 + (unat u2 - 0xDC00)" by simp
    then have "length (utf8_of_cp (0x10000 + (unat u1 - 0xD800) * 0x400 + (unat u2 - 0xDC00))) = 4"
      by (simp add: utf8_of_cp_def)
    with True "3.IH"(1) show ?thesis by (simp add: utf8_def)
  next
    case False
    then have "length (utf8 (u1 # u2 # us)) = length (utf8_of_cp (unat u1)) + length (utf8 (u2 # us))"
      by (auto simp: utf8_def)
    moreover have "length (u1 # u2 # us) = Suc 0 + length (u2 # us)" by simp
    moreover have "length (u2 # us) \<le> length (utf8 (u2 # us))" using False by (intro "3.IH"(2))
    ultimately show ?thesis using length_utf8_of_cp [of "unat u1"] by linarith
  qed
qed

lemma decode_string_utf8: "decode_string False (utf8 s) = Some s"
proof -
  have "utf8_decode False (utf8 s) = Some (code_points s)"
    unfolding utf8_def by (rule utf8_decode_all) (simp add: code_points_bound)
  then show ?thesis by (simp add: decode_string_def utf16_code_points)
qed

lemma decode_string_strict: "well_formed_utf16 s \<Longrightarrow> decode_string True (utf8 s) = Some s"
proof -
  assume "well_formed_utf16 s"
  then have "utf8_decode True (utf8 s) = Some (code_points s)"
    unfolding utf8_def by (intro utf8_decode_all) (auto simp: code_points_bound dest: code_points_scalar)
  then show ?thesis by (simp add: decode_string_def utf16_code_points)
qed

lemma string_utf8_ok:
  assumes "winv w" and "length (utf8 s) < 2 ^ 32"
  shows "\<exists>w'. string s w = Inr w' \<and> appends w (varint (length (utf8 s)) @ utf8 s) w'"
proof -
  have "length s < 2 ^ 32" using length_le_utf8 [of s] assms(2) by simp
  then have t: "take (js_length s) s = s" by (simp add: js_length_def)
  have "string_blen s 0 mod 2 ^ 32 = length (utf8 s)"
    using assms(2) by (simp add: string_blen_eq string_bytes_utf8)
  then have "wop_bytes (W_string s) = varint (length (utf8 s)) @ utf8 s"
    by (simp only: wop_bytes.simps t string_bytes_utf8)
  with string_ok [OF assms(1), of s] show ?thesis by simp
qed

lemma utf8_euro: "utf8 [0x20AC] = [0xE2, 0x82, 0xAC]"
  by (simp add: utf8_def utf8_of_cp_def)

text \<open>
  Claim C5. On a writer that satisfies the invariant, \<^verbatim>\<open>string(s)\<close> succeeds and appends
  the varint of the UTF-8 byte length of \<open>s\<close> followed by the UTF-8 encoding of \<open>s\<close>, a
  surrogate pair giving one four-byte sequence; the prefix reads back as the length, and
  the body decodes back to \<open>s\<close>, with the strict decoder too when \<open>s\<close> has no unpaired
  surrogate. The encoding has to be shorter than \<open>2 ^ 32\<close> bytes, the range of the prefix.
  \<^verbatim>\<open>new Writer().string("\<euro>")\<close>, the code unit \<^verbatim>\<open>0x20AC\<close>, finishes to
  \<^verbatim>\<open>[0x03, 0xE2, 0x82, 0xAC]\<close>.
\<close>

theorem string_utf8_roundtrip:
  assumes "winv w" and "length (utf8 s) < 2 ^ 32"
  shows "(\<exists>w'. string s w = Inr w' \<and> winv w' \<and> stack w' = stack w \<and>
            contents w' = contents w @ varint (length (utf8 s)) @ utf8 s) \<and>
         read_varint (varint (length (utf8 s)) @ utf8 s) = Some (length (utf8 s), utf8 s) \<and>
         decode_string False (utf8 s) = Some s \<and>
         (well_formed_utf16 s \<longrightarrow> decode_string True (utf8 s) = Some s) \<and>
         (\<exists>w' w''. string [0x20AC] Writer = Inr w' \<and> finish w' = Inr (Some [0x03, 0xE2, 0x82, 0xAC], w''))"
proof -
  from string_utf8_ok [OF assms]
  have 1: "\<exists>w'. string s w = Inr w' \<and> winv w' \<and> stack w' = stack w \<and>
            contents w' = contents w @ varint (length (utf8 s)) @ utf8 s"
    by (auto simp: appends_def)
  have "length (utf8 [0x20AC]) < (2::nat) ^ 32" by (simp add: utf8_euro)
  from string_utf8_ok [OF winv_Writer this] obtain w' where
    w': "string [0x20AC] Writer = Inr w'"
        "appends Writer (varint (length (utf8 [0x20AC])) @ utf8 [0x20AC]) w'"
    by blast
  have "varint (length (utf8 [0x20AC])) = [0x03]" by (simp add: utf8_euro varint_small)
  with w'(2) have "\<exists>w''. finish w' = Inr (Some [0x03, 0xE2, 0x82, 0xAC], w'')"
    using finish_written [of w'] by (auto simp: appends_def contents_Writer utf8_euro)
  with w' 1 show ?thesis
    by (auto simp: read_varint_varint decode_string_utf8 decode_string_strict)
qed

theorem string_utf8_roundtrip_witness:
  "(\<exists>w'. string [0x48, 0xD83D, 0xDE00] Writer = Inr w' \<and> winv w' \<and> stack w' = stack Writer \<and>
            contents w' = contents Writer @ varint (length (utf8 [0x48, 0xD83D, 0xDE00])) @
               utf8 [0x48, 0xD83D, 0xDE00]) \<and>
         read_varint (varint (length (utf8 [0x48, 0xD83D, 0xDE00])) @ utf8 [0x48, 0xD83D, 0xDE00]) =
           Some (length (utf8 [0x48, 0xD83D, 0xDE00]), utf8 [0x48, 0xD83D, 0xDE00]) \<and>
         decode_string False (utf8 [0x48, 0xD83D, 0xDE00]) = Some [0x48, 0xD83D, 0xDE00] \<and>
         decode_string True (utf8 [0x48, 0xD83D, 0xDE00]) = Some [0x48, 0xD83D, 0xDE00] \<and>
         utf8 [0x48, 0xD83D, 0xDE00] = [0x48, 0xF0, 0x9F, 0x98, 0x80] \<and>
         (\<exists>w' w''. string [0x20AC] Writer = Inr w' \<and> finish w' = Inr (Some [0x03, 0xE2, 0x82, 0xAC], w''))"
proof -
  have u: "utf8 [0x48, 0xD83D, 0xDE00] = [0x48, 0xF0, 0x9F, 0x98, 0x80]"
    by (simp add: utf8_def utf8_of_cp_def high_surrogate_def low_surrogate_def)
  have l: "length (utf8 [0x48, 0xD83D, 0xDE00]) < (2::nat) ^ 32" by (simp add: u)
  have wf: "well_formed_utf16 [0x48, 0xD83D, 0xDE00]"
    by (simp add: high_surrogate_def low_surrogate_def)
  from string_utf8_roundtrip [OF winv_Writer l] wf u show ?thesis by simp
qed

section \<open>Properties of fields\<close>

subsection \<open>Packed repeated fields\<close>

lemma packable_names:
  "packableWireTypes t \<noteq> None \<Longrightarrow>
   t = ''double'' \<or> t = ''float'' \<or> t = ''int32'' \<or> t = ''uint32'' \<or> t = ''sint32'' \<or>
   t = ''fixed32'' \<or> t = ''sfixed32'' \<or> t = ''int64'' \<or> t = ''uint64'' \<or> t = ''sint64'' \<or>
   t = ''fixed64'' \<or> t = ''sfixed64'' \<or> t = ''bool''"
  unfolding packableWireTypes_def by (simp split: if_splits)

lemma method_call_uint32: "method_call ''uint32'' v = Some (case v of VNum n \<Rightarrow> Some (W_uint32 n) | _ \<Rightarrow> None)"
  by (simp add: method_call_def)

lemma method_call_int32: "method_call ''int32'' v = Some (case v of VNum n \<Rightarrow> Some (W_int32 n) | _ \<Rightarrow> None)"
  by (simp add: method_call_def)

lemma method_call_sint32: "method_call ''sint32'' v = Some (case v of VNum n \<Rightarrow> Some (W_sint32 n) | _ \<Rightarrow> None)"
  by (simp add: method_call_def)

lemma method_call_fixed32: "method_call ''fixed32'' v = Some (case v of VNum n \<Rightarrow> Some (W_fixed32 n) | _ \<Rightarrow> None)"
  by (simp add: method_call_def)

lemma method_call_sfixed32: "method_call ''sfixed32'' v = Some (case v of VNum n \<Rightarrow> Some (W_sfixed32 n) | _ \<Rightarrow> None)"
  by (simp add: method_call_def)

lemma method_call_uint64: "method_call ''uint64'' v = Some (map_option W_uint64 (long_arg v))"
  by (simp add: method_call_def)

lemma method_call_int64: "method_call ''int64'' v = Some (map_option W_int64 (long_arg v))"
  by (simp add: method_call_def)

lemma method_call_sint64: "method_call ''sint64'' v = Some (map_option W_sint64 (long_arg v))"
  by (simp add: method_call_def)

lemma method_call_fixed64: "method_call ''fixed64'' v = Some (map_option W_fixed64 (long_arg v))"
  by (simp add: method_call_def)

lemma method_call_sfixed64: "method_call ''sfixed64'' v = Some (map_option W_sfixed64 (long_arg v))"
  by (simp add: method_call_def)

lemma method_call_bool: "method_call ''bool'' v = Some (case v of VBool b \<Rightarrow> Some (W_bool b) | _ \<Rightarrow> None)"
  by (simp add: method_call_def)

lemma method_call_float: "method_call ''float'' v = Some (case v of VFloat b \<Rightarrow> Some (W_float b) | _ \<Rightarrow> None)"
  by (simp add: method_call_def)

lemma method_call_double: "method_call ''double'' v = Some (case v of VDouble b \<Rightarrow> Some (W_double b) | _ \<Rightarrow> None)"
  by (simp add: method_call_def)

lemmas method_call_packable =
  method_call_uint32 method_call_int32 method_call_sint32 method_call_fixed32 method_call_sfixed32
  method_call_uint64 method_call_int64 method_call_sint64 method_call_fixed64 method_call_sfixed64
  method_call_bool method_call_float method_call_double

lemma fixed32_bytes_nonempty: "fixed32_bytes v \<noteq> []"
  by (simp add: fixed32_bytes_def)

lemma fixed64_bytes_nonempty: "fixed64_bytes v \<noteq> []"
  by (simp add: fixed64_bytes_def)

lemma num_element:
  "(case v of VNum n \<Rightarrow> Some (c n) | _ \<Rightarrow> None) = Some x \<Longrightarrow> \<exists>n. v = VNum n \<and> x = c n"
  by (cases v) simp_all

lemma long_element:
  "map_option c (long_arg v) = Some x \<Longrightarrow> \<exists>l. x = c l"
  by (cases v) auto

lemma packable_element:
  assumes "packableWireTypes t \<noteq> None" and "method_call t v = Some (Some x)"
  shows "wop_ok x \<and> wop_bytes x \<noteq> []"
  using packable_names [OF assms(1)]
proof (elim disjE)
  assume "t = ''double''"
  with assms(2) show ?thesis
    by (cases v) (auto simp: method_call_double le_bytes_nonempty)
next
  assume "t = ''float''"
  with assms(2) show ?thesis
    by (cases v) (auto simp: method_call_float le_bytes_nonempty)
next
  assume "t = ''int32''"
  with assms(2) num_element [where v = v and c = W_int32 and x = x] show ?thesis
    by (auto simp: method_call_int32 varint_nonempty)
next
  assume "t = ''uint32''"
  with assms(2) num_element [where v = v and c = W_uint32 and x = x] show ?thesis
    by (auto simp: method_call_uint32 varint_nonempty)
next
  assume "t = ''sint32''"
  with assms(2) num_element [where v = v and c = W_sint32 and x = x] show ?thesis
    by (auto simp: method_call_sint32 varint_nonempty)
next
  assume "t = ''fixed32''"
  with assms(2) num_element [where v = v and c = W_fixed32 and x = x] show ?thesis
    by (auto simp: method_call_fixed32 fixed32_bytes_nonempty)
next
  assume "t = ''sfixed32''"
  with assms(2) num_element [where v = v and c = W_sfixed32 and x = x] show ?thesis
    by (auto simp: method_call_sfixed32 fixed32_bytes_nonempty)
next
  assume "t = ''int64''"
  with assms(2) long_element [where v = v and c = W_int64 and x = x] show ?thesis
    by (auto simp: method_call_int64 varint_nonempty)
next
  assume "t = ''uint64''"
  with assms(2) long_element [where v = v and c = W_uint64 and x = x] show ?thesis
    by (auto simp: method_call_uint64 varint_nonempty)
next
  assume "t = ''sint64''"
  with assms(2) long_element [where v = v and c = W_sint64 and x = x] show ?thesis
    by (auto simp: method_call_sint64 varint_nonempty)
next
  assume "t = ''fixed64''"
  with assms(2) long_element [where v = v and c = W_fixed64 and x = x] show ?thesis
    by (auto simp: method_call_fixed64 fixed64_bytes_nonempty)
next
  assume "t = ''sfixed64''"
  with assms(2) long_element [where v = v and c = W_sfixed64 and x = x] show ?thesis
    by (auto simp: method_call_sfixed64 fixed64_bytes_nonempty)
next
  assume "t = ''bool''"
  with assms(2) show ?thesis
    by (cases v) (auto simp: method_call_bool)
qed

lemma write_elements_ok:
  assumes "packableWireTypes t \<noteq> None"
  shows "winv w \<Longrightarrow> list_all (typed t) vs \<Longrightarrow>
   \<exists>w'. write_elements t vs w = Inr w' \<and> appends w (concat (map (element_bytes t) vs)) w'"
proof (induction vs arbitrary: w)
  case Nil
  then show ?case by (simp add: appends_refl)
next
  case (Cons v vs)
  from Cons.prems(2) obtain x where x: "method_call t v = Some (Some x)"
    by (auto simp: typed_def split: option.splits)
  from packable_element [OF assms x] have "wop_ok x" by simp
  from write_op_ok [OF Cons.prems(1) this] obtain w1 where
    w1: "write_op x w = Inr w1" "appends w (wop_bytes x) w1" by auto
  then have "winv w1" by (simp add: appends_def)
  with Cons obtain w' where
    w': "write_elements t vs w1 = Inr w'" "appends w1 (concat (map (element_bytes t) vs)) w'"
    by auto
  have eb: "element_bytes t v = wop_bytes x" by (simp add: element_bytes_def x)
  from appends_trans [OF w1(2) w'(2)] w1(1) w'(1) x show ?case
    by (simp add: write_typed_def eb)
qed

lemma elements_nonempty:
  assumes "packableWireTypes t \<noteq> None" and "list_all (typed t) vs" and "vs \<noteq> []"
  shows "concat (map (element_bytes t) vs) \<noteq> []"
proof -
  from assms(3) obtain v vs' where vs: "vs = v # vs'" by (cases vs) auto
  with assms(2) obtain x where x: "method_call t v = Some (Some x)"
    by (auto simp: typed_def split: option.splits)
  from packable_element [OF assms(1) x] have "element_bytes t v \<noteq> []"
    by (simp add: element_bytes_def x)
  with vs show ?thesis by simp
qed

lemma small_tag:
  assumes "0 \<le> i" and "i \<le> 15"
  shows "[tag_byte i 2] = varint (nat (i * 8 + 2))"
proof -
  define n where "n = nat i"
  have n: "n \<le> 15" "i = int n" using assms by (simp_all add: n_def)
  define x where "x = (word_of_int i :: 32 word)"
  have ux: "unat x = n" using n by (simp add: x_def unat_of_nat)
  have "unat (push_bit 3 x) = take_bit 32 (push_bit 3 (unat x))"
    by (rule unsigned_push_bit_eq [where 'a = nat and 'b = 32, simplified])
  also have "\<dots> = 2 ^ 3 * n" using n(1) by (simp add: ux take_bit_eq_mod push_bit_eq_mult)
  finally have p: "unat (push_bit 3 x) = 2 ^ 3 * n" .
  define y where "y = (push_bit 3 x) OR ((word_of_int 2 :: 32 word) AND 7)"
  have "unat ((word_of_int 2 :: 32 word) AND 7) = 2" by simp
  then have "unat y = 2 OR (2 ^ 3 * n)"
    unfolding y_def by (simp only: unsigned_or_eq p or.commute)
  also have "\<dots> = 2 + 2 ^ 3 * n" by (rule nat_or_high) simp
  finally have o: "unat y = 2 + 8 * n" by simp
  have "unat (y AND 255) = (2 + 8 * n) mod 2 ^ 8"
    using nat_and_mask [of "2 + 8 * n" 8] by (simp add: unsigned_and_eq o)
  also have "\<dots> = 2 + 8 * n" using n(1) by simp
  finally have "unat (ucast (y AND 255) :: byte) = 2 + 8 * n"
    using n(1) by (simp only: unat_ucast_byte) simp
  then have "tag_byte i 2 = of_nat (2 + 8 * n)"
    unfolding tag_byte_def x_def [symmetric] y_def [symmetric] by (rule byte_of_unat)
  moreover have "nat (i * 8 + 2) = 2 + 8 * n" using assms by (simp add: n_def)
  moreover have "2 + 8 * n < 128" using n(1) by simp
  ultimately show ?thesis by (simp only: varint_small)
qed

lemma packed_written:
  assumes "winv w" and "f_repeated f" and "packed f"
    and "packableWireTypes (encode_type f) \<noteq> None"
    and "list_all (typed (encode_type f)) vs"
    and "length (concat (map (element_bytes (encode_type f)) vs)) < 2 ^ 32"
    and "vs \<noteq> []"
  shows "\<exists>w'. encode_internal ed f (Many vs) w = Inr w' \<and>
           appends w (tag_byte (f_id f) 2 #
                      varint (length (concat (map (element_bytes (encode_type f)) vs))) @
                      concat (map (element_bytes (encode_type f)) vs)) w'"
proof -
  define t where "t = encode_type f"
  define body where "body = concat (map (element_bytes t) vs)"
  from write_elements_ok [OF assms(4) winv_fork [OF assms(1)] assms(5)] obtain w1 where
    w1: "write_elements t vs (fork w) = Inr w1" "appends (fork w) body w1"
    by (auto simp: t_def body_def)
  then have i1: "winv w1" and c1: "contents w1 = body" and st: "stack w1 = stack (fork w)"
    and ss: "setup_step (fork w) w1"
    by (simp_all add: appends_def contents_fork)
  have ne: "body \<noteq> []"
    using elements_nonempty [OF assms(4,5,7)] by (simp add: body_def t_def)
  with i1 c1 obtain e where
    fin: "finish w1 = Inr (Some body, (reset w1)\<lparr>emptyArray := e\<rparr>)"
    and e: "e = emptyArray w1 \<or> (emptyArray w1 = None \<and> e = Some (alloc_array 0))"
    using finish_written [of w1] by auto
  define w2 where "w2 = w\<lparr>emptyArray := e\<rparr>"
  have r: "(reset w1)\<lparr>emptyArray := e\<rparr> = w2"
    by (simp add: reset_after_fork [OF st] w2_def)
  have fe: "emptyArray (fork w) = emptyArray w" by (simp add: fork_def)
  from ss e have s2: "setup_step w w2"
    by (auto simp: setup_step_def fe w2_def)
  have i2: "winv w2" using assms(1) by (simp add: winv_def w2_def)
  have "contents w2 = contents w"
    by (cases "buf w") (simp_all add: contents_def w2_def)
  with i2 s2 have a2: "appends w [] w2"
    by (simp add: appends_def w2_def)
  from tag_ok [OF i2, of "f_id f" 2] obtain w3 where
    w3: "tag (f_id f) 2 w2 = Inr w3" "appends w2 [tag_byte (f_id f) 2] w3" by auto
  then have "winv w3" by (simp add: appends_def)
  moreover have "length body < 2 ^ 32" using assms(6) by (simp add: body_def t_def)
  ultimately obtain w' where
    w': "bytes body w3 = Inr w'" "appends w3 (varint (length body) @ body) w'"
    using bytes_ok [of w3 body] by auto
  from appends_trans [OF appends_trans [OF a2 w3(2)] w'(2)]
  have "appends w (tag_byte (f_id f) 2 # varint (length body) @ body) w'" by simp
  with ne w1 fin r w3 w' assms(2,3,4) show ?thesis
    by (simp add: encode_internal_def Let_def t_def [symmetric] body_def [symmetric])
qed

lemma packed_empty:
  assumes "f_repeated f" and "packed f" and "packableWireTypes (encode_type f) \<noteq> None"
  shows "encode_internal ed f (Many []) w =
           (case emptyArray w of
              None \<Rightarrow> Inl TypeError
            | Some b \<Rightarrow>
                if length b \<noteq> 0 then
                  (case tag (f_id f) 2 w of Inl e \<Rightarrow> Inl e | Inr w3 \<Rightarrow> bytes b w3)
                else Inr w)"
proof -
  have "reset (fork w) = w"
    by (cases w) (simp add: reset_def fork_def apply_state_def State_def)
  then have "finish (fork w) = Inr (emptyArray w, w)"
    by (simp add: finish_def Let_def) (simp add: fork_def)
  with assms show ?thesis
    by (cases "emptyArray w") (simp_all add: encode_internal_def Let_def)
qed

lemma varint_two: "128 \<le> n \<Longrightarrow> varint n \<noteq> [b]"
  by (subst varint.simps) (simp add: varint_nonempty)

lemma large_tag:
  assumes "16 \<le> i"
  shows "[tag_byte i 2] \<noteq> varint (nat (i * 8 + 2))"
proof -
  from assms have "128 \<le> nat (i * 8 + 2)" by simp
  from varint_two [OF this, of "tag_byte i 2"] show ?thesis by simp
qed

text \<open>
  Claim C4 fails on the code in two places. For a repeated field whose \<^verbatim>\<open>packed\<close> option
  is on and whose element type is packable, on a writer that satisfies the invariant and
  with elements that are values of the element type (the block shorter than \<open>2 ^ 32\<close>
  bytes), \<^verbatim>\<open>encode\<close> (the function \<^verbatim>\<open>encode_internal\<close>) with one element or more adds
  the one byte that \<^verbatim>\<open>tag(id, 2)\<close> writes, the varint of the length of the block, and the
  block: the bytes of the elements one after the other, with no tag between them. That
  byte is the tag of the field, the varint of \<open>id * 8 + 2\<close>, for an id up to 15 only; from
  id 16 on the tag has two bytes or more and the code writes the low byte of
  \<open>id * 8 + 2\<close> alone. With no element the code adds no byte once \<^verbatim>\<open>setup\<close> has run, but
  while \<^verbatim>\<open>emptyArray\<close> is still null \<^verbatim>\<open>finish()\<close> returns null and \<^verbatim>\<open>buf.length\<close> raises
  a \<^verbatim>\<open>TypeError\<close>.
\<close>

theorem packed_encoding_tag_byte_and_null:
  assumes "winv w" and "f_repeated f" and "packed f"
    and "packableWireTypes (encode_type f) \<noteq> None"
    and "list_all (typed (encode_type f)) vs"
    and "length (concat (map (element_bytes (encode_type f)) vs)) < 2 ^ 32"
  shows "(vs \<noteq> [] \<longrightarrow>
            (\<exists>w'. encode_internal ed f (Many vs) w = Inr w' \<and> winv w' \<and> stack w' = stack w \<and>
               contents w' = contents w @
                 tag_byte (f_id f) 2 #
                 varint (length (concat (map (element_bytes (encode_type f)) vs))) @
                 concat (map (element_bytes (encode_type f)) vs))) \<and>
         (vs = [] \<and> emptyArray w = None \<longrightarrow> encode_internal ed f (Many vs) w = Inl TypeError) \<and>
         (vs = [] \<and> emptyArray w = Some (alloc_array 0) \<longrightarrow>
            encode_internal ed f (Many vs) w = Inr w) \<and>
         (0 \<le> f_id f \<and> f_id f \<le> 15 \<longrightarrow> [tag_byte (f_id f) 2] = varint (nat (f_id f * 8 + 2))) \<and>
         (16 \<le> f_id f \<longrightarrow> [tag_byte (f_id f) 2] \<noteq> varint (nat (f_id f * 8 + 2)))"
proof -
  have 1: "vs \<noteq> [] \<longrightarrow>
            (\<exists>w'. encode_internal ed f (Many vs) w = Inr w' \<and> winv w' \<and> stack w' = stack w \<and>
               contents w' = contents w @
                 tag_byte (f_id f) 2 #
                 varint (length (concat (map (element_bytes (encode_type f)) vs))) @
                 concat (map (element_bytes (encode_type f)) vs))"
    using packed_written [OF assms, of ed] by (auto simp: appends_def)
  have 2: "vs = [] \<and> emptyArray w = None \<longrightarrow> encode_internal ed f (Many vs) w = Inl TypeError"
    using packed_empty [OF assms(2,3,4), of ed w] by simp
  have 3: "vs = [] \<and> emptyArray w = Some (alloc_array 0) \<longrightarrow>
            encode_internal ed f (Many vs) w = Inr w"
    using packed_empty [OF assms(2,3,4), of ed w] by (simp add: alloc_array_def)
  from 1 2 3 small_tag [of "f_id f"] large_tag [of "f_id f"] show ?thesis by blast
qed

lemma int32_example_bytes:
  "concat (map (element_bytes ''int32'') [VNum 1, VNum 2, VNum 150]) = [0x01, 0x02, 0x96, 0x01]"
  by (simp add: element_bytes_def method_call_int32 varint.simps)

lemma int32_one_byte: "concat (map (element_bytes ''int32'') [VNum 1]) = [0x01]"
  by (simp add: element_bytes_def method_call_int32 varint.simps)

theorem packed_encoding_tag_byte_and_null_witness:
  "(\<exists>w'. encode_internal None packed_int32_field (Many [VNum 1, VNum 2, VNum 150]) Writer = Inr w' \<and>
         contents w' = [0x1A, 0x04, 0x01, 0x02, 0x96, 0x01]) \<and>
   encode_internal None packed_int32_field (Many []) Writer = Inl TypeError \<and>
   encode_internal None packed_int32_field (Many []) (Writer_in (Some (alloc_array 0))) =
     Inr (Writer_in (Some (alloc_array 0))) \<and>
   (\<exists>w'. encode_internal None (packed_int32_field\<lparr>f_id := 16\<rparr>) (Many [VNum 1]) Writer = Inr w' \<and>
         contents w' = [0x82, 0x01, 0x01]) \<and>
   varint (nat (16 * 8 + 2)) = [0x82, 0x01]"
proof -
  have t: "encode_type packed_int32_field = ''int32''"
    by (simp add: encode_type_def packed_int32_field_def)
  have r: "f_repeated packed_int32_field" by (simp add: packed_int32_field_def)
  have p: "packed packed_int32_field"
    by (simp add: packed_def getOption_def packed_int32_field_def)
  have k: "packableWireTypes (encode_type packed_int32_field) \<noteq> None"
    by (simp add: t packableWireTypes_def)
  have ty: "list_all (typed (encode_type packed_int32_field)) [VNum 1, VNum 2, VNum 150]"
    by (simp add: t typed_def method_call_int32)
  have ty0: "list_all (typed (encode_type packed_int32_field)) []" by simp
  have l: "length (concat (map (element_bytes (encode_type packed_int32_field)) [VNum 1, VNum 2, VNum 150]))
             < 2 ^ 32"
    by (simp only: t int32_example_bytes) simp
  have l0: "length (concat (map (element_bytes (encode_type packed_int32_field)) [])) < 2 ^ 32"
    by simp
  have i: "f_id packed_int32_field = 3" by (simp add: packed_int32_field_def)
  have tb: "tag_byte 3 2 = 0x1A" by (simp add: tag_byte_def)
  have v4: "varint (length [0x01 :: byte, 0x02, 0x96, 0x01]) = [0x04]" by (simp add: varint_small)
  from packed_encoding_tag_byte_and_null [OF winv_Writer r p k ty l, of None]
  have 1: "\<exists>w'. encode_internal None packed_int32_field (Many [VNum 1, VNum 2, VNum 150]) Writer = Inr w' \<and>
         contents w' = [0x1A, 0x04, 0x01, 0x02, 0x96, 0x01]"
    unfolding t int32_example_bytes i v4 by (auto simp: contents_Writer tb)
  from packed_encoding_tag_byte_and_null [OF winv_Writer r p k ty0 l0, of None]
  have 2: "encode_internal None packed_int32_field (Many []) Writer = Inl TypeError"
    by (simp add: Writer_def Writer_in_def)
  from packed_encoding_tag_byte_and_null
         [OF winv_Writer_in [of "Some (alloc_array 0)"] r p k ty0 l0, where ed = None]
  have 3: "encode_internal None packed_int32_field (Many []) (Writer_in (Some (alloc_array 0))) =
             Inr (Writer_in (Some (alloc_array 0)))"
    by (simp add: Writer_in_def)
  define g where "g = packed_int32_field\<lparr>f_id := 16\<rparr>"
  have t': "encode_type g = ''int32''"
    by (simp add: encode_type_def packed_int32_field_def g_def)
  have r': "f_repeated g" by (simp add: packed_int32_field_def g_def)
  have p': "packed g"
    by (simp add: packed_def getOption_def packed_int32_field_def g_def)
  have k': "packableWireTypes (encode_type g) \<noteq> None"
    by (simp add: t' packableWireTypes_def)
  have ty': "list_all (typed (encode_type g)) [VNum 1]"
    by (simp add: t' typed_def method_call_int32)
  have l': "length (concat (map (element_bytes (encode_type g)) [VNum 1])) < 2 ^ 32"
    by (simp only: t' int32_one_byte) simp
  have i': "f_id g = 16" by (simp add: g_def)
  have tb': "tag_byte 16 2 = 0x82" by (simp add: tag_byte_def)
  have v1: "varint (length [0x01 :: byte]) = [0x01]" by (simp add: varint_small)
  from packed_encoding_tag_byte_and_null [OF winv_Writer r' p' k' ty' l', of None]
  have 4: "\<exists>w'. encode_internal None g (Many [VNum 1]) Writer = Inr w' \<and>
         contents w' = [0x82, 0x01, 0x01]"
    unfolding t' int32_one_byte i' v1 by (auto simp: contents_Writer tb')
  have 5: "varint (nat (16 * 8 + 2)) = [0x82, 0x01]" by (simp add: varint.simps)
  from 1 2 3 4 5 show ?thesis unfolding g_def by simp
qed

subsection \<open>Fields from JSON\<close>

text \<open>
  Claim C9 fails on the code. \<^verbatim>\<open>Field.fromJSON\<close> passes \<^verbatim>\<open>json.role\<close> to the constructor,
  not \<^verbatim>\<open>json.rule\<close>: the field made from
  \<^verbatim>\<open>{"id": 1, "type": "int32", "rule": "repeated"}\<close> has no rule and is not repeated,
  while the constructor given the rule \<^verbatim>\<open>repeated\<close> itself makes a repeated field.
\<close>

theorem fromJSON_reads_role:
  "Field_fromJSON ''f'' repeated_field_json =
     Inr \<lparr>f_name = ''f'', f_options = JUndefined, f_rule = None, f_type = ''int32'', f_id = 1,
          f_extend = None, f_required = False, f_optional = True, f_repeated = False,
          f_map = False, f_resolvedType = None, f_packed = None\<rparr> \<and>
   Field_new ''f'' (JNum 1) (JStr ''int32'') (JStr ''repeated'') JUndefined JUndefined =
     Inr \<lparr>f_name = ''f'', f_options = JUndefined, f_rule = Some ''repeated'', f_type = ''int32'',
          f_id = 1, f_extend = None, f_required = False, f_optional = True, f_repeated = True,
          f_map = False, f_resolvedType = None, f_packed = None\<rparr>"
proof
  show "Field_fromJSON ''f'' repeated_field_json =
     Inr \<lparr>f_name = ''f'', f_options = JUndefined, f_rule = None, f_type = ''int32'', f_id = 1,
          f_extend = None, f_required = False, f_optional = True, f_repeated = False,
          f_map = False, f_resolvedType = None, f_packed = None\<rparr>"
    by (simp add: Field_fromJSON_def repeated_field_json_def Field_new_def)
  show "Field_new ''f'' (JNum 1) (JStr ''int32'') (JStr ''repeated'') JUndefined JUndefined =
     Inr \<lparr>f_name = ''f'', f_options = JUndefined, f_rule = Some ''repeated'', f_type = ''int32'',
          f_id = 1, f_extend = None, f_required = False, f_optional = True, f_repeated = True,
          f_map = False, f_resolvedType = None, f_packed = None\<rparr>"
    by code_simp
qed

theorem fromJSON_reads_role_witness:
  "(\<exists>f. Field_fromJSON ''f'' repeated_field_json = Inr f \<and> \<not> f_repeated f \<and> f_rule f = None) \<and>
   (\<exists>g. Field_new ''f'' (JNum 1) (JStr ''int32'') (JStr ''repeated'') JUndefined JUndefined = Inr g \<and>
        f_repeated g)"
  using fromJSON_reads_role by simp

section \<open>Properties of namespaces\<close>

subsection \<open>Removing a member\<close>

text \<open>
  Claim C8 fails on the code. The getter \<^verbatim>\<open>empty\<close> is true when the namespace has
  members, so \<^verbatim>\<open>remove\<close> of a member drops the nested map exactly when other members
  remain, and keeps an empty map when the last member goes.
\<close>

theorem remove_drops_map_with_members:
  assumes "o_parent (h_obj h object) = Some this" and "o_nested (h_obj h this) = Some m"
  shows "\<exists>h'. remove h this object = Inr h' \<and>
           o_nested (h_obj h' this) =
             (if delete_key (o_name (h_obj h object)) m = [] then Some [] else None)"
  using assms
  by (simp add: remove_def Let_def empty_def upd_def onRemove_def)

theorem remove_drops_map_with_members_witness:
  "(\<exists>h'. remove two_members 0 1 = Inr h' \<and> o_nested (h_obj h' 0) = None) \<and>
   (\<exists>h'. remove one_member 0 1 = Inr h' \<and> o_nested (h_obj h' 0) = Some [])"
proof -
  have p2: "o_parent (h_obj two_members 1) = Some 0"
    and n2: "o_nested (h_obj two_members 0) = Some [(''a'', 1), (''b'', 2)]"
    by (simp_all add: two_members_def store_of_def reflection_def)
  have p1: "o_parent (h_obj one_member 1) = Some 0"
    and n1: "o_nested (h_obj one_member 0) = Some [(''a'', 1)]"
    by (simp_all add: one_member_def store_of_def reflection_def)
  from remove_drops_map_with_members [OF p2 n2] remove_drops_map_with_members [OF p1 n1]
  show ?thesis
    by (simp add: delete_key_def two_members_def one_member_def store_of_def reflection_def)
qed

subsection \<open>Adding a Type over a namespace\<close>

text \<open>
  Claim C6 fails on the code. \<^verbatim>\<open>add\<close> returns \<^verbatim>\<open>this\<close>, so \<^verbatim>\<open>prev.each(object.add, object)\<close>
  ends after the first member: with the members \<open>a\<close> and \<open>b\<close> in the namespace \<open>n\<close>,
  the new Type \<open>n\<close> receives \<open>a\<close> alone and \<open>b\<close> keeps the removed namespace as its
  parent. When the parent has another member, \<^verbatim>\<open>remove\<close> drops its nested map and the
  store of the Type under its name is a \<^verbatim>\<open>TypeError\<close>.
\<close>

theorem add_moves_first_member_only:
  "map_option (map_sum id (\<lambda>h. (o_nested (h_obj h 0), o_nested (h_obj h 4), o_parent (h_obj h 3))))
     (add 2 reparent_store 0 (Some 4)) =
     Some (Inr (Some [(''n'', 4)], Some [(''a'', 2)], Some 1)) \<and>
   add 2 reparent_sibling_store 0 (Some 4) = Some (Inl TypeError)"
  by (simp add: reparent_store_def reparent_sibling_store_def store_of_def reflection_def
      nestedTypes_def instanceof_Field_def instanceof_Namespace_def instanceof_Type_def
      get_def each_def remove_def store_child_def upd_def empty_def delete_key_def onAdd_def
      onRemove_def Let_def numeral_2_eq_2)

theorem add_moves_first_member_only_witness:
  "\<exists>h. add 2 reparent_store 0 (Some 4) = Some (Inr h) \<and>
       o_nested (h_obj h 4) = Some [(''a'', 2)] \<and> o_parent (h_obj h 3) = Some 1"
proof -
  from add_moves_first_member_only
  have "map_option (map_sum id (\<lambda>h. (o_nested (h_obj h 0), o_nested (h_obj h 4), o_parent (h_obj h 3))))
     (add 2 reparent_store 0 (Some 4)) =
     Some (Inr (Some [(''n'', 4)], Some [(''a'', 2)], Some 1))"
    by simp
  then show ?thesis
    by (cases "add 2 reparent_store 0 (Some 4)") (auto simp: map_sum_def split: sum.splits)
qed

subsection \<open>Adding from JSON\<close>

text \<open>
  Claim C7 fails on the code. The \<^verbatim>\<open>throw\<close> of \<^verbatim>\<open>addJSON\<close> follows the inner loop without
  a condition, so \<^verbatim>\<open>addJSON\<close> never returns on a map with an entry, whatever the
  classifiers say: for \<^verbatim>\<open>{"A": {"values": {"X": 1}}}\<close> the classifier of \<^verbatim>\<open>Enum\<close>
  matches, the enum is added, and the \<^verbatim>\<open>TypeError\<close> is raised all the same.
\<close>

theorem addJSON_raises_for_every_entry:
  assumes "kvs \<noteq> []"
  shows "addJSON fuel h this (JObj kvs) \<noteq> Some (Inr h')"
proof (cases fuel)
  case 0
  then show ?thesis by simp
next
  case (Suc n)
  from assms obtain kv rest where "kvs = kv # rest" by (cases kvs) auto
  with Suc show ?thesis
    by (simp add: keys_loop_def split: option.splits sum.splits)
qed

lemma enum_classified:
  "map_option (map_sum id (\<lambda>h. o_nested (h_obj h 0)))
     (classify (addJSON 1) 2 root_store 0 nestedTypes ''A'' (JObj [(''values'', JObj [(''X'', JNum 1)])])) =
     Some (Inr (Some [(''A'', 1)]))"
  by (simp add: nestedTypes_def has_prop_def fromJSON_def new_object_def root_store_def store_of_def
      reflection_def instanceof_Field_def store_child_def upd_def onAdd_def numeral_2_eq_2)

lemma enum_json_raises: "addJSON 2 root_store 0 enum_json = Some (Inl TypeError)"
  by (simp add: enum_json_def keys_loop_def nestedTypes_def has_prop_def fromJSON_def new_object_def
      root_store_def store_of_def reflection_def instanceof_Field_def store_child_def upd_def
      onAdd_def numeral_2_eq_2)

theorem addJSON_raises_for_every_entry_witness:
  "addJSON 2 root_store 0 enum_json = Some (Inl TypeError) \<and>
   addJSON 2 root_store 0 enum_json \<noteq> Some (Inr root_store) \<and>
   map_option (map_sum id (\<lambda>h. o_nested (h_obj h 0)))
     (classify (addJSON 1) 2 root_store 0 nestedTypes ''A'' (JObj [(''values'', JObj [(''X'', JNum 1)])])) =
     Some (Inr (Some [(''A'', 1)]))"
proof -
  have "addJSON 2 root_store 0 enum_json \<noteq> Some (Inr root_store)"
    unfolding enum_json_def by (rule addJSON_raises_for_every_entry) simp
  with enum_json_raises enum_classified show ?thesis by simp
qed

subsection \<open>Looking a path up\<close>





end
